theory Spec2Isabelle
  imports Complex_Main "HOL-Library.Multiset"
begin

section \<open>Data model (types of the option-chain viewer)\<close>

text \<open>
  A finite TypeScript \<open>number\<close> is modelled by the rational it denotes (a rational
  that is a double, \<open>isDouble\<close> below; other rationals are no values of the code). Where a claim
  depends on the rounding of doubles, the operation is rounded to the nearest double in
  the model as well: the products and sums of \<open>calculateMaxPain\<close> (which can also
  overflow to \<open>Infinity\<close> and produce \<open>NaN\<close>) and the quotient and decimal conversion
  behind the PCR. The sums of the totals and the comparisons of \<open>getATMStrike\<close> are
  taken exactly: the values the code computes as long as they are doubles (integers of
  magnitude up to \<open>2^53\<close>, say).
\<close>

type_synonym number = rat

record OptionData =
  strikePrice :: number
  expiryDate :: string
  underlying :: string
  identifier' :: string
  openInterest :: number
  changeinOpenInterest :: number
  pchangeinOpenInterest :: number
  totalTradedVolume :: number
  impliedVolatility :: number
  lastPrice :: number
  change :: number
  pChange :: number
  totalBuyQuantity :: number
  totalSellQuantity :: number
  bidQty :: number
  bidprice :: number
  askQty :: number
  askPrice :: number
  underlyingValue :: number

text \<open>The optional legs \<open>CE?\<close> and \<open>PE?\<close> of a strike record are options.\<close>

record StrikeRecord =
  strikePrice :: number
  expiryDate :: string
  CE :: "OptionData option"
  PE :: "OptionData option"

text \<open>
  The persisted summary. \<open>id\<close> is a HOL constant, so the field is \<open>id'\<close>; the field
  \<open>pcrChangeOI\<close> is the one the backfill loop of \<open>App.tsx\<close> adds.
\<close>

record Snapshot =
  id' :: string
  timestamp :: string
  underlyingValue :: number
  pcr :: number
  pcrChangeOI :: "number option"
  maxPain :: number
  ceTotalOI :: number
  peTotalOI :: number

text \<open>
  The response object. Its field \<open>data\<close> is written \<open>data'\<close>, so that \<open>data\<close> stays
  free for the parameter of the analytics functions, as in the source.
\<close>

record Records =
  expiryDates :: "string list"
  data' :: "StrikeRecord list"
  timestamp :: string
  underlyingValue :: number
  strikePrices :: "number list"

record Tot =
  totOI :: number
  totVol :: number

record Filtered =
  data' :: "StrikeRecord list"
  CE :: Tot
  PE :: Tot

record NSEResponse =
  records :: Records
  filtered :: Filtered

datatype Trend = Bullish | Bearish | Neutral

record AnalysisResult =
  pcr :: number
  pcrVol :: number
  maxPain :: number
  callOI :: number
  putOI :: number
  callChangeOI :: number
  putChangeOI :: number
  atmStrike :: number
  trend :: Trend
  support :: number
  resistance :: number

section \<open>Doubles (IEEE 754 binary64, round to nearest, ties to even)\<close>

text \<open>\<open>Number.MAX_VALUE\<close>, the largest finite double: \<open>(2^53 - 1) * 2^971\<close>.\<close>

definition MAX_VALUE :: number where
  "MAX_VALUE = (2 ^ 53 - 1) * 2 ^ 971"

text \<open>
  The integer nearest to a rational, the even one of the two when it lies half way.
\<close>

definition roundHalfEven :: "rat \<Rightarrow> int" where
  "roundHalfEven y =
     (let f = \<lfloor>y\<rfloor>; d = y - of_int f
      in if d < 1 / 2 then f
         else if 1 / 2 < d then f + 1
         else if even f then f else f + 1)"

text \<open>
  The binary exponent of a positive rational: \<open>expo x = e\<close> with
  \<open>2^e \<le> x < 2^(e+1)\<close>, found by halving (\<open>expUp\<close>, for \<open>x \<ge> 1\<close>) or from the
  reciprocal.
\<close>

function expUp :: "rat \<Rightarrow> nat" where
  "expUp x = (if 2 \<le> x then Suc (expUp (x / 2)) else 0)"
  by pat_completeness auto
termination
proof (relation "measure (\<lambda>x. nat \<lfloor>x\<rfloor>)")
  show "wf (measure (\<lambda>x::rat. nat \<lfloor>x\<rfloor>))"
    by simp
next
  fix x :: rat assume "2 \<le> x"
  then have "x / 2 \<le> x - 1" by simp
  then have "\<lfloor>x / 2\<rfloor> \<le> \<lfloor>x - 1\<rfloor>" by (rule floor_mono)
  moreover from \<open>2 \<le> x\<close> have "2 \<le> \<lfloor>x\<rfloor>" by (simp add: le_floor_iff)
  ultimately show "(x / 2, x) \<in> measure (\<lambda>x. nat \<lfloor>x\<rfloor>)"
    by simp
qed

definition expo :: "rat \<Rightarrow> int" where
  "expo x =
     (if 1 \<le> x then int (expUp x)
      else (let k = expUp (1 / x) in if 1 / x = 2 ^ k then - int k else - int k - 1))"

text \<open>\<open>2^k\<close> for an integer \<open>k\<close>.\<close>

definition pow2 :: "int \<Rightarrow> rat" where
  "pow2 k = (if 0 \<le> k then 2 ^ nat k else 1 / 2 ^ nat (- k))"

text \<open>
  The spacing of the doubles around \<open>x\<close>: 53 significant bits, and the spacing
  \<open>2^-1074\<close> of the subnormal numbers below \<open>2^-1022\<close>. \<open>roundFin x\<close> is the multiple
  of the spacing nearest to \<open>x\<close>, the double nearest to \<open>x\<close> as long as the result
  does not exceed \<open>MAX_VALUE\<close>.
\<close>

definition quantum :: "rat \<Rightarrow> rat" where
  "quantum x = pow2 (max (expo \<bar>x\<bar>) (- 1022) - 52)"

definition roundFin :: "rat \<Rightarrow> rat" where
  "roundFin x = (if x = 0 then 0 else of_int (roundHalfEven (x / quantum x)) * quantum x)"

text \<open>The rationals that are finite doubles: the values a \<open>number\<close> of the model may take.\<close>

definition isDouble :: "number \<Rightarrow> bool" where
  "isDouble x = (roundFin x = x \<and> \<bar>x\<bar> \<le> MAX_VALUE)"

text \<open>
  The values of an arithmetic expression: a finite double, \<open>Infinity\<close>, \<open>-Infinity\<close>
  or \<open>NaN\<close> (the two zeros are one value; no result of the functions below depends
  on the sign of a zero). \<open>roundD\<close> rounds an exact result: what rounds beyond
  \<open>MAX_VALUE\<close> is infinite.
\<close>

datatype Double = Fin number | PInf | NInf | NaN

definition roundD :: "rat \<Rightarrow> Double" where
  "roundD x =
     (let r = roundFin x
      in if MAX_VALUE < r then PInf else if r < - MAX_VALUE then NInf else Fin r)"

text \<open>The operators \<open>+\<close>, \<open>*\<close> and \<open><\<close> on these values.\<close>

fun fadd :: "Double \<Rightarrow> Double \<Rightarrow> Double" where
  "fadd (Fin a) (Fin b) = roundD (a + b)"
| "fadd NaN y = NaN"
| "fadd x NaN = NaN"
| "fadd PInf NInf = NaN"
| "fadd NInf PInf = NaN"
| "fadd PInf y = PInf"
| "fadd x PInf = PInf"
| "fadd NInf y = NInf"
| "fadd x NInf = NInf"

fun fmul :: "Double \<Rightarrow> Double \<Rightarrow> Double" where
  "fmul (Fin a) (Fin b) = roundD (a * b)"
| "fmul NaN y = NaN"
| "fmul x NaN = NaN"
| "fmul (Fin a) PInf = (if a = 0 then NaN else if 0 < a then PInf else NInf)"
| "fmul (Fin a) NInf = (if a = 0 then NaN else if 0 < a then NInf else PInf)"
| "fmul PInf (Fin b) = (if b = 0 then NaN else if 0 < b then PInf else NInf)"
| "fmul NInf (Fin b) = (if b = 0 then NaN else if 0 < b then NInf else PInf)"
| "fmul PInf PInf = PInf"
| "fmul PInf NInf = NInf"
| "fmul NInf PInf = NInf"
| "fmul NInf NInf = PInf"

fun flt :: "Double \<Rightarrow> Double \<Rightarrow> bool" where
  "flt (Fin a) (Fin b) = (a < b)"
| "flt NaN y = False"
| "flt x NaN = False"
| "flt PInf y = False"
| "flt x NInf = False"
| "flt x PInf = True"
| "flt NInf y = True"

section \<open>Analytics engine (services/analysis.ts)\<close>

subsection \<open>calculateMaxPain\<close>

text \<open>
  \<open>record.CE?.openInterest || 0\<close>: an absent leg reads as 0 (and so does a leg whose
  value is 0).
\<close>

definition legOI :: "OptionData option \<Rightarrow> number" where
  "legOI leg = (case leg of None \<Rightarrow> 0 | Some l \<Rightarrow> openInterest l)"

text \<open>
  Body of the inner loop of \<open>calculateMaxPain\<close>: one record added to \<open>totalLoss\<close>.
  The strikes and open interests are finite doubles; the difference, the product and
  the sum are each rounded.
\<close>

definition lossStep :: "number \<Rightarrow> Double \<Rightarrow> StrikeRecord \<Rightarrow> Double" where
  "lossStep expirationStrike totalLoss r =
     (let strike = StrikeRecord.strikePrice r;
          ceOI = legOI (StrikeRecord.CE r);
          peOI = legOI (StrikeRecord.PE r);
          totalLoss1 = (if expirationStrike > strike
                        then fadd totalLoss (fmul (roundD (expirationStrike - strike)) (Fin ceOI))
                        else totalLoss)
      in if strike > expirationStrike
         then fadd totalLoss1 (fmul (roundD (strike - expirationStrike)) (Fin peOI))
         else totalLoss1)"

text \<open>The inner loop: \<open>totalLoss\<close> starts at 0 and runs over \<open>data\<close> in order.\<close>

definition totalLossAt :: "StrikeRecord list \<Rightarrow> number \<Rightarrow> Double" where
  "totalLossAt data expirationStrike = foldl (lossStep expirationStrike) (Fin 0) data"

text \<open>
  Body of the outer loop: the pair is \<open>(minTotalLoss, maxPainStrike)\<close>, replaced only
  by a strictly smaller loss (\<open>NaN\<close> is smaller than nothing).
\<close>

definition painStep ::
  "StrikeRecord list \<Rightarrow> Double \<times> number \<Rightarrow> number \<Rightarrow> Double \<times> number" where
  "painStep data st expirationStrike =
     (let totalLoss = totalLossAt data expirationStrike
      in if flt totalLoss (fst st) then (totalLoss, expirationStrike) else st)"

text \<open>
  \<open>data.map(d => d.strikePrice).sort((a, b) => a - b)\<close> is the ascending sort of the
  strike prices (duplicates kept): the rounded difference of two finite doubles has the
  sign of the exact difference, and on numbers every correct sort yields the same list.
\<close>

definition calculateMaxPain :: "StrikeRecord list \<Rightarrow> number" where
  "calculateMaxPain data =
     (if data = [] then 0
      else snd (foldl (painStep data) (Fin MAX_VALUE, 0)
                  (sort (map StrikeRecord.strikePrice data))))"

subsection \<open>getATMStrike\<close>

text \<open>
  \<open>strikes.reduce(f)\<close> without an initial value starts from the first element and
  folds the rest; the empty array is caught before.
\<close>

definition atmStep :: "number \<Rightarrow> number \<Rightarrow> number \<Rightarrow> number" where
  "atmStep spotPrice prev cur =
     (if \<bar>cur - spotPrice\<bar> < \<bar>prev - spotPrice\<bar> then cur else prev)"

fun getATMStrike :: "number \<Rightarrow> number list \<Rightarrow> number" where
  "getATMStrike spotPrice [] = 0"
| "getATMStrike spotPrice (s # strikes) = foldl (atmStep spotPrice) s strikes"

subsection \<open>analyzeOptionChain\<close>

text \<open>
  \<open>Number(x.toFixed(2))\<close> for a finite double \<open>x\<close>: \<open>toFixed\<close> takes the sign off,
  picks the integer \<open>n\<close> with \<open>n / 100\<close> nearest to the magnitude (the larger one on a
  tie) and prints it with two decimals; \<open>Number\<close> reads the decimal back as the
  nearest double. From \<open>10^21\<close> on \<open>toFixed\<close> prints the number itself, which
  \<open>Number\<close> reads back unchanged.
\<close>

definition toFixed2 :: "number \<Rightarrow> number" where
  "toFixed2 x =
     (if 10 ^ 21 \<le> \<bar>x\<bar> then x
      else if x < 0 then - roundFin (of_int \<lfloor>(- x) * 100 + 1 / 2\<rfloor> / 100)
      else roundFin (of_int \<lfloor>x * 100 + 1 / 2\<rfloor> / 100))"

definition legVol :: "OptionData option \<Rightarrow> number" where
  "legVol leg = (case leg of None \<Rightarrow> 0 | Some l \<Rightarrow> totalTradedVolume l)"

definition legChangeOI :: "OptionData option \<Rightarrow> number" where
  "legChangeOI leg = (case leg of None \<Rightarrow> 0 | Some l \<Rightarrow> changeinOpenInterest l)"

text \<open>The ten local variables that the \<open>forEach\<close> callback updates.\<close>

record Totals =
  totalCallOI :: number
  totalPutOI :: number
  totalCallVol :: number
  totalPutVol :: number
  totalCallChangeOI :: number
  totalPutChangeOI :: number
  maxCallOI :: number
  maxPutOI :: number
  resistanceT :: number
  supportT :: number

definition initTotals :: Totals where
  "initTotals = \<lparr> totalCallOI = 0, totalPutOI = 0, totalCallVol = 0, totalPutVol = 0,
      totalCallChangeOI = 0, totalPutChangeOI = 0, maxCallOI = 0, maxPutOI = 0,
      resistanceT = 0, supportT = 0 \<rparr>"

definition accumulate :: "Totals \<Rightarrow> StrikeRecord \<Rightarrow> Totals" where
  "accumulate t r =
     (let ceOI = legOI (StrikeRecord.CE r);
          peOI = legOI (StrikeRecord.PE r);
          ceVol = legVol (StrikeRecord.CE r);
          peVol = legVol (StrikeRecord.PE r);
          ceChangeOI = legChangeOI (StrikeRecord.CE r);
          peChangeOI = legChangeOI (StrikeRecord.PE r)
      in \<lparr> totalCallOI = totalCallOI t + ceOI,
           totalPutOI = totalPutOI t + peOI,
           totalCallVol = totalCallVol t + ceVol,
           totalPutVol = totalPutVol t + peVol,
           totalCallChangeOI = totalCallChangeOI t + ceChangeOI,
           totalPutChangeOI = totalPutChangeOI t + peChangeOI,
           maxCallOI = (if ceOI > maxCallOI t then ceOI else maxCallOI t),
           maxPutOI = (if peOI > maxPutOI t then peOI else maxPutOI t),
           resistanceT = (if ceOI > maxCallOI t then StrikeRecord.strikePrice r
                          else resistanceT t),
           supportT = (if peOI > maxPutOI t then StrikeRecord.strikePrice r
                       else supportT t) \<rparr>)"

text \<open>\<open>d.CE && d.PE\<close>: both legs present.\<close>

definition bothLegs :: "StrikeRecord \<Rightarrow> bool" where
  "bothLegs d = (StrikeRecord.CE d \<noteq> None \<and> StrikeRecord.PE d \<noteq> None)"

definition classify :: "number \<Rightarrow> number \<Rightarrow> number \<Rightarrow> Trend" where
  "classify p putChange callChange =
     (if p > 12 / 10 then Bullish
      else if p < 6 / 10 then Bearish
      else if putChange > callChange then Bullish
      else if callChange > putChange then Bearish
      else Neutral)"

text \<open>
  The quotient of the two totals is the double nearest to the exact quotient (a
  quotient beyond \<open>MAX_VALUE\<close>, which the code turns into \<open>Infinity\<close>, is outside the
  model).
\<close>

definition analyzeOptionChain :: "StrikeRecord list \<Rightarrow> number \<Rightarrow> AnalysisResult" where
  "analyzeOptionChain data underlyingValue' =
     (let validData = filter bothLegs data;
          t = foldl accumulate initTotals validData;
          pcr' = (if totalCallOI t = 0 then 0
                  else toFixed2 (roundFin (totalPutOI t / totalCallOI t)));
          pcrVol' = (if totalCallVol t = 0 then 0
                     else toFixed2 (roundFin (totalPutVol t / totalCallVol t)));
          maxPain' = calculateMaxPain validData;
          atmStrike' = getATMStrike underlyingValue' (map StrikeRecord.strikePrice validData)
      in \<lparr> pcr = pcr', pcrVol = pcrVol', maxPain = maxPain',
           callOI = totalCallOI t, putOI = totalPutOI t,
           callChangeOI = totalCallChangeOI t, putChangeOI = totalPutChangeOI t,
           atmStrike = atmStrike',
           trend = classify pcr' (totalPutChangeOI t) (totalCallChangeOI t),
           support = supportT t, resistance = resistanceT t \<rparr>)"

section \<open>Snapshot store (services/dataService.ts)\<close>

text \<open>
  The store is the item of \<open>localStorage\<close> under \<open>STORAGE_KEY\<close>, as
  \<open>JSON.parse\<close> reads it: \<open>None\<close> while the key is absent. The key-value collaborator
  is taken to hold what the operations wrote and to accept every write, so the
  \<open>catch\<close> branches (which log and leave the item alone) have no input here.
\<close>

type_synonym Storage = "Snapshot list option"

text \<open>\<open>existingData ? JSON.parse(existingData) : []\<close>\<close>

definition stored :: "Storage \<Rightarrow> Snapshot list" where
  "stored st = (case st of None \<Rightarrow> [] | Some xs \<Rightarrow> xs)"

text \<open>
  \<open>new Date(s).getTime()\<close> is a parameter \<open>getTime\<close>: milliseconds since the epoch, or
  \<open>None\<close> for \<open>NaN\<close> (a string that is no date). The comparator
  \<open>(a, b) => new Date(b.timestamp).getTime() - new Date(a.timestamp).getTime()\<close>
  yields \<open>NaN\<close> when either side does, which \<open>sort\<close> reads as \<open>+0\<close>.
\<close>

definition byTimeDesc :: "(string \<Rightarrow> int option) \<Rightarrow> Snapshot \<Rightarrow> Snapshot \<Rightarrow> int" where
  "byTimeDesc getTime a b =
     (case (getTime (Snapshot.timestamp b), getTime (Snapshot.timestamp a)) of
        (Some tb, Some ta) \<Rightarrow> tb - ta
      | _ \<Rightarrow> 0)"

text \<open>
  \<open>Array.prototype.sort(cmp)\<close> is a stable sort: \<open>a\<close> stays before \<open>b\<close> unless
  \<open>cmp(a, b) > 0\<close>. It is modelled by stable insertion; for a comparator that is a
  consistent order, every stable sort returns this list. \<open>byTimeDesc\<close> is a
  consistent order as long as every timestamp is a date; with a timestamp that is no
  date the order of the engine's result is not determined by the language, and only
  the properties of a permutation carry over from the model. The statements below that
  depend on the order assume that all timestamps are dates (\<open>allDates\<close>) or are about
  given timestamps that are dates.
\<close>

fun insertBy :: "('a \<Rightarrow> 'a \<Rightarrow> int) \<Rightarrow> 'a \<Rightarrow> 'a list \<Rightarrow> 'a list" where
  "insertBy cmp x [] = [x]"
| "insertBy cmp x (y # ys) = (if cmp x y \<le> 0 then x # y # ys else y # insertBy cmp x ys)"

definition sortBy :: "('a \<Rightarrow> 'a \<Rightarrow> int) \<Rightarrow> 'a list \<Rightarrow> 'a list" where
  "sortBy cmp xs = foldr (insertBy cmp) xs []"

text \<open>\<open>s.includes('T')\<close>\<close>

definition includesT :: "string \<Rightarrow> bool" where
  "includesT s = (CHR ''T'' \<in> set s)"

text \<open>
  \<open>saveSnapshot\<close>. The two readings of the clock are parameters: \<open>nowId\<close> is
  \<open>Date.now().toString()\<close> and \<open>nowIso\<close> is \<open>new Date().toISOString()\<close>.
\<close>

definition makeSnapshot :: "string \<Rightarrow> string \<Rightarrow> NSEResponse \<Rightarrow> Snapshot" where
  "makeSnapshot nowId nowIso d =
     (let analysis = analyzeOptionChain (Records.data' (records d))
                       (Records.underlyingValue (records d))
      in \<lparr> id' = nowId,
           timestamp = (if includesT (Records.timestamp (records d))
                        then Records.timestamp (records d) else nowIso),
           underlyingValue = Records.underlyingValue (records d),
           pcr = AnalysisResult.pcr analysis,
           pcrChangeOI = None,
           maxPain = AnalysisResult.maxPain analysis,
           ceTotalOI = callOI analysis,
           peTotalOI = putOI analysis \<rparr>)"

definition saveSnapshot ::
  "(string \<Rightarrow> int option) \<Rightarrow> string \<Rightarrow> string \<Rightarrow> NSEResponse \<Rightarrow> Storage \<Rightarrow> Storage" where
  "saveSnapshot getTime nowId nowIso d st =
     (let snapshot = makeSnapshot nowId nowIso d;
          snapshots = stored st;
          newSnapshots = take 100 (sortBy (byTimeDesc getTime) (snapshot # snapshots))
      in Some newSnapshots)"

text \<open>\<open>a.findIndex(p)\<close>: the first index whose element satisfies \<open>p\<close>, or \<open>-1\<close>.\<close>

fun findIndex :: "('a \<Rightarrow> bool) \<Rightarrow> 'a list \<Rightarrow> int" where
  "findIndex p [] = - 1"
| "findIndex p (x # xs) =
     (if p x then 0 else (let k = findIndex p xs in if k < 0 then - 1 else k + 1))"

text \<open>
  \<open>combined.filter((v, i, a) => a.findIndex(t => t.timestamp === v.timestamp) === i)\<close>:
  the callback sees each element with its index.
\<close>

definition uniqueByTimestamp :: "Snapshot list \<Rightarrow> Snapshot list" where
  "uniqueByTimestamp a =
     map fst (filter (\<lambda>(v, i). findIndex (\<lambda>t. Snapshot.timestamp t = Snapshot.timestamp v) a = int i)
                (zip a [0..<length a]))"

definition saveBackfilledSnapshots ::
  "(string \<Rightarrow> int option) \<Rightarrow> Snapshot list \<Rightarrow> Storage \<Rightarrow> Storage" where
  "saveBackfilledSnapshots getTime snapshots st =
     (let existingSnapshots = stored st;
          combined = sortBy (byTimeDesc getTime) (snapshots @ existingSnapshots);
          unique = uniqueByTimestamp combined;
          sliced = take 200 unique
      in Some sliced)"

definition getSnapshots :: "Storage \<Rightarrow> Snapshot list" where
  "getSnapshots st = stored st"

definition clearSnapshots :: "Storage \<Rightarrow> Storage" where
  "clearSnapshots st = None"

text \<open>
  A sequence of calls of \<open>saveSnapshot\<close>, each with its own readings of the clock and
  its own response.
\<close>

definition saveSnapshots ::
  "(string \<Rightarrow> int option) \<Rightarrow> (string \<times> string \<times> NSEResponse) list \<Rightarrow> Storage \<Rightarrow> Storage" where
  "saveSnapshots getTime calls st =
     foldl (\<lambda>s (nowId, nowIso, d). saveSnapshot getTime nowId nowIso d s) st calls"

section \<open>Snapshot parser and time intervals (services/trendlyne.ts)\<close>

subsection \<open>The parsing part of fetchTrendlyneSnapshot\<close>

text \<open>
  The payload as the code reads it. \<open>lp\<close> is tested for truthiness before it is parsed,
  so it is a JSON number or a JSON string; the per-strike fields are defaulted with
  \<open>|| '0'\<close> and parsed, so they are absent, JSON numbers or JSON strings. \<open>oiData\<close>
  lists the entries of the mapping in the order of \<open>Object.keys\<close>; an entry is \<open>None\<close>
  when its value is the JSON \<open>null\<close> (reading a property of it throws), else it is
  the record of its fields (a value without these fields reads as the record of absent
  fields).
\<close>

datatype JsValue = JNum number | JStr string

record RawStrike =
  callOi :: "JsValue option"
  callOiChange :: "JsValue option"
  callVol :: "JsValue option"
  callLtp :: "JsValue option"
  putOi :: "JsValue option"
  putOiChange :: "JsValue option"
  putVol :: "JsValue option"
  putLtp :: "JsValue option"

record InputData =
  lp :: "JsValue option"
  tradingDate :: "string option"

record StockData =
  lp :: "JsValue option"

record Body =
  inputData :: "InputData option"
  stockData :: "StockData option"
  oiData :: "(string \<times> RawStrike option) list option"

text \<open>
  The built-in functions the parser calls are parameters: \<open>parseFloat\<close> and
  \<open>parseInt\<close> on strings, and the conversion of a number to a string (inside the
  template literal of the identifier, and when \<open>parseInt\<close> or \<open>parseFloat\<close> is
  handed a number). They yield numbers of the model, so a string that parses to \<open>NaN\<close>
  is outside it.
\<close>

record Builtins =
  parseFloat :: "string \<Rightarrow> number"
  parseInt :: "string \<Rightarrow> number"
  numberToString :: "number \<Rightarrow> string"

definition truthy :: "JsValue option \<Rightarrow> bool" where
  "truthy v = (case v of None \<Rightarrow> False | Some (JNum n) \<Rightarrow> n \<noteq> 0 | Some (JStr s) \<Rightarrow> s \<noteq> [])"

text \<open>\<open>parseFloat(v)\<close> for a value that passed the truthiness test.\<close>

definition parseLp :: "Builtins \<Rightarrow> JsValue option \<Rightarrow> number" where
  "parseLp bi v = (case v of None \<Rightarrow> 0 | Some (JNum n) \<Rightarrow> n | Some (JStr s) \<Rightarrow> parseFloat bi s)"

text \<open>
  \<open>x || '0'\<close> as the argument of \<open>parseInt\<close> or \<open>parseFloat\<close>, which read the string
  of their argument: a falsy field (absent, \<open>0\<close>, \<open>''\<close>) gives \<open>'0'\<close>.
\<close>

definition orZero :: "Builtins \<Rightarrow> JsValue option \<Rightarrow> string" where
  "orZero bi v =
     (case v of
        None \<Rightarrow> ''0''
      | Some (JNum n) \<Rightarrow> if n = 0 then ''0'' else numberToString bi n
      | Some (JStr s) \<Rightarrow> if s = [] then ''0'' else s)"

definition underlyingOf :: "Builtins \<Rightarrow> Body \<Rightarrow> number" where
  "underlyingOf bi body =
     (let ilp = (case inputData body of None \<Rightarrow> None | Some i \<Rightarrow> InputData.lp i);
          slp = (case stockData body of None \<Rightarrow> None | Some sd \<Rightarrow> StockData.lp sd)
      in if truthy ilp then parseLp bi ilp
         else if truthy slp then parseLp bi slp
         else 0)"

definition mkLeg ::
  "string \<Rightarrow> string \<Rightarrow> number \<Rightarrow> number \<Rightarrow> string \<Rightarrow> number \<Rightarrow> number \<Rightarrow> number \<Rightarrow> number
     \<Rightarrow> OptionData" where
  "mkLeg expiry symbol underlyingV strike ident oi oiChange vol ltp =
     \<lparr> OptionData.strikePrice = strike, expiryDate = expiry, underlying = symbol, identifier' = ident,
       openInterest = oi, changeinOpenInterest = oiChange, pchangeinOpenInterest = 0,
       totalTradedVolume = vol, impliedVolatility = 0, lastPrice = ltp, change = 0,
       pChange = 0, totalBuyQuantity = 0, totalSellQuantity = 0, bidQty = 0, bidprice = 0,
       askQty = 0, askPrice = 0, underlyingValue = underlyingV \<rparr>"

text \<open>
  The callback of \<open>Object.keys(oiData).forEach\<close>: one strike record per key. On a
  \<open>null\<close> entry \<open>sData.callOi\<close> throws a \<open>TypeError\<close>: the result is \<open>None\<close>.
\<close>

definition mkStrike ::
  "Builtins \<Rightarrow> string \<Rightarrow> string \<Rightarrow> number \<Rightarrow> string \<times> RawStrike option
     \<Rightarrow> StrikeRecord option" where
  "mkStrike bi expiry symbol underlyingV entry =
     (let strikeStr = fst entry;
          strike = parseFloat bi strikeStr
      in case snd entry of
           None \<Rightarrow> None
         | Some sData \<Rightarrow>
             Some \<lparr> StrikeRecord.strikePrice = strike, expiryDate = expiry,
               CE = Some (mkLeg expiry symbol underlyingV strike (''CE'' @ numberToString bi strike)
                       (parseInt bi (orZero bi (callOi sData)))
                       (parseInt bi (orZero bi (callOiChange sData)))
                       (parseInt bi (orZero bi (callVol sData)))
                       (parseFloat bi (orZero bi (callLtp sData)))),
               PE = Some (mkLeg expiry symbol underlyingV strike (''PE'' @ numberToString bi strike)
                       (parseInt bi (orZero bi (putOi sData)))
                       (parseInt bi (orZero bi (putOiChange sData)))
                       (parseInt bi (orZero bi (putVol sData)))
                       (parseFloat bi (orZero bi (putLtp sData)))) \<rparr>)"

text \<open>
  Lines 143 to 231 of \<open>fetchTrendlyneSnapshot\<close>: from the body of the response to the
  result. \<open>None\<close> is the source's \<open>return null\<close>, also the one of the \<open>catch\<close> branch
  that an exception inside \<open>forEach\<close> reaches (\<open>those\<close> is \<open>None\<close> as soon as one
  callback threw). \<open>today\<close> is \<open>new Date().toISOString().split('T')[0]\<close>;
  \<open>timestamp'\<close> is the parameter \<open>timestamp\<close> (HH:MM). The array is sorted in place,
  so the three views of the strikes in the result are the sorted one.
\<close>

definition parseSnapshotBody ::
  "Builtins \<Rightarrow> string \<Rightarrow> string \<Rightarrow> string \<Rightarrow> string \<Rightarrow> Body option \<Rightarrow> NSEResponse option" where
  "parseSnapshotBody bi today expiry timestamp' symbol body' =
     (case body' of
        None \<Rightarrow> None
      | Some body \<Rightarrow>
          (let oi = (case oiData body of None \<Rightarrow> [] | Some m \<Rightarrow> m);
               underlyingV = underlyingOf bi body;
               td = (case inputData body of None \<Rightarrow> None | Some i \<Rightarrow> tradingDate i);
               tradingDate' = (case td of None \<Rightarrow> today | Some t \<Rightarrow> if t = [] then today else t)
           in if underlyingV = 0 \<and> length (map fst oi) = 0 then None
              else
                (case those (map (mkStrike bi expiry symbol underlyingV) oi) of
                   None \<Rightarrow> None
                 | Some pushed \<Rightarrow>
                     (let strikes = sort_key StrikeRecord.strikePrice pushed
                      in Some \<lparr> records =
                                  \<lparr> expiryDates = [expiry], data' = strikes,
                                    timestamp = tradingDate' @ '' '' @ timestamp' @ '':00'',
                                    underlyingValue = underlyingV,
                                    strikePrices = map StrikeRecord.strikePrice strikes \<rparr>,
                                filtered =
                                  \<lparr> data' = strikes, CE = \<lparr> totOI = 0, totVol = 0 \<rparr>,
                                    PE = \<lparr> totOI = 0, totVol = 0 \<rparr> \<rparr> \<rparr>))))"

text \<open>
  \<open>fetchTrendlyneSnapshot\<close> around the parsing part. What the transport delivers is a
  parameter: \<open>None\<close> when \<open>fetch\<close> or \<open>response.json()\<close> rejects (the \<open>catch\<close>
  branch returns \<open>null\<close>), else \<open>response.ok\<close> and the JSON that was read.
  \<open>stockId\<close> enters the URL only.
\<close>

record Head =
  status :: "JsValue option"

record Json =
  head :: "Head option"
  body :: "Body option"

record Response =
  ok :: bool
  json :: Json

text \<open>
  \<open>json.head?.status && json.head?.status !== 0 && json.head?.status !== '0'\<close>
\<close>

definition headError :: "Json \<Rightarrow> bool" where
  "headError j =
     (case head j of
        None \<Rightarrow> False
      | Some h \<Rightarrow> truthy (status h) \<and> status h \<noteq> Some (JNum 0) \<and> status h \<noteq> Some (JStr ''0''))"

definition fetchTrendlyneSnapshot ::
  "Builtins \<Rightarrow> string \<Rightarrow> Response option \<Rightarrow> string \<Rightarrow> string \<Rightarrow> string \<Rightarrow> string
     \<Rightarrow> NSEResponse option" where
  "fetchTrendlyneSnapshot bi today response stockId expiry timestamp' symbol =
     (case response of
        None \<Rightarrow> None
      | Some r \<Rightarrow>
          if \<not> ok r then None
          else if headError (json r) then None
          else parseSnapshotBody bi today expiry timestamp' symbol (body (json r)))"

subsection \<open>generateTimeIntervals\<close>

text \<open>
  \<open>Number\<close> on the strings a time of day is written with: a string of ASCII
  decimal digits denotes its value and the empty string denotes 0. Every other string
  is read as \<open>NaN\<close> (\<open>None\<close>); the further spellings JavaScript accepts (blanks, signs,
  fractions, exponents, other radices) are no times of day and are outside the model.
\<close>

definition isDigit :: "char \<Rightarrow> bool" where
  "isDigit c = ((48::nat) \<le> of_char c \<and> of_char c \<le> (57::nat))"

definition digitsValue :: "string \<Rightarrow> int" where
  "digitsValue s = foldl (\<lambda>acc c. acc * 10 + (int (of_char c) - 48)) 0 s"

definition NumberJS :: "string \<Rightarrow> int option" where
  "NumberJS s = (if list_all isDigit s then Some (digitsValue s) else None)"

text \<open>\<open>s.split(':')\<close>: the pieces between the colons, at least one piece.\<close>

fun splitColon :: "string \<Rightarrow> string list" where
  "splitColon [] = [[]]"
| "splitColon (c # cs) =
     (if c = CHR '':'' then [] # splitColon cs
      else (case splitColon cs of p # ps \<Rightarrow> (c # p) # ps | [] \<Rightarrow> [[c]]))"

text \<open>
  A \<open>Date\<close> of today is the number of minutes after today's local midnight (seconds
  and milliseconds are set to 0, and the day has no clock change).
  \<open>setHours(h, m, 0, 0)\<close> after \<open>const [h, m] = s.split(':').map(Number)\<close> gives
  \<open>60 * h + m\<close>, or an invalid date (\<open>None\<close>) when a piece is missing or \<open>NaN\<close>.
\<close>

definition dateOf :: "string \<Rightarrow> int option" where
  "dateOf s =
     (case map NumberJS (splitColon s) of
        Some h # Some m # _ \<Rightarrow> Some (60 * h + m)
      | _ \<Rightarrow> None)"

text \<open>\<open>n.toString()\<close> of a natural number, and \<open>padStart(2, '0')\<close>.\<close>

definition digitChar :: "nat \<Rightarrow> char" where
  "digitChar d = ''0123456789'' ! d"

fun toStringNat :: "nat \<Rightarrow> string" where
  "toStringNat n = (if n < 10 then [digitChar n] else toStringNat (n div 10) @ [digitChar (n mod 10)])"

definition padStart2 :: "string \<Rightarrow> string" where
  "padStart2 s = replicate (2 - length s) (CHR ''0'') @ s"

text \<open>The label pushed for a date: \<open>getHours()\<close> and \<open>getMinutes()\<close>, padded.\<close>

definition timeLabel :: "int \<Rightarrow> string" where
  "timeLabel current =
     (let h = padStart2 (toStringNat (nat ((current div 60) mod 24)));
          m = padStart2 (toStringNat (nat (current mod 60)))
      in h @ '':'' @ m)"

text \<open>
  The \<open>while (current <= end)\<close> loop, for a step of whole minutes:
  \<open>current.setMinutes(current.getMinutes() + intervalMinutes)\<close> moves the date by
  that many minutes. The loop need not end (a step of 0 or less never passes \<open>end\<close>),
  so it is a partial function: \<open>None\<close> is a run that never returns.
\<close>

partial_function (option) intervalLoop ::
  "int \<Rightarrow> int \<Rightarrow> int \<Rightarrow> string list \<Rightarrow> string list option" where
  "intervalLoop intervalMinutes end' current times' =
     (if current \<le> end'
      then intervalLoop intervalMinutes end' (current + intervalMinutes)
             (times' @ [timeLabel current])
      else Some times')"


section \<open>Reference definitions and sample inputs\<close>

text \<open>
  The total writer loss at an expiration strike \<open>E\<close> as the specification words it:
  the calls of the strikes below \<open>E\<close> plus the puts of the strikes above \<open>E\<close>.
\<close>

definition writerLoss :: "StrikeRecord list \<Rightarrow> number \<Rightarrow> number" where
  "writerLoss data E =
     (\<Sum>r\<leftarrow>data. if StrikeRecord.strikePrice r < E
                then (E - StrikeRecord.strikePrice r) * legOI (StrikeRecord.CE r) else 0)
   + (\<Sum>r\<leftarrow>data. if StrikeRecord.strikePrice r > E
                then (StrikeRecord.strikePrice r - E) * legOI (StrikeRecord.PE r) else 0)"

text \<open>
  The records the code can be given: strikes and open interests that are doubles.
\<close>

definition doubleRecords :: "StrikeRecord list \<Rightarrow> bool" where
  "doubleRecords data =
     (\<forall>r\<in>set data. isDouble (StrikeRecord.strikePrice r) \<and>
        isDouble (legOI (StrikeRecord.CE r)) \<and> isDouble (legOI (StrikeRecord.PE r)))"

text \<open>
  The share of one record in that loss, and the range in which the losses are computed
  without rounding: strikes that are integers of magnitude up to \<open>2^52\<close>, open
  interests that are non-negative integers up to \<open>2^53\<close>, and a writer loss of at
  most \<open>2^53\<close> at every strike.
\<close>

definition recordLoss :: "number \<Rightarrow> StrikeRecord \<Rightarrow> number" where
  "recordLoss E r =
     (if StrikeRecord.strikePrice r < E
      then (E - StrikeRecord.strikePrice r) * legOI (StrikeRecord.CE r) else 0)
   + (if StrikeRecord.strikePrice r > E
      then (StrikeRecord.strikePrice r - E) * legOI (StrikeRecord.PE r) else 0)"

definition safeRecord :: "StrikeRecord \<Rightarrow> bool" where
  "safeRecord r =
     (StrikeRecord.strikePrice r \<in> \<int> \<and> \<bar>StrikeRecord.strikePrice r\<bar> \<le> 2 ^ 52 \<and>
      legOI (StrikeRecord.CE r) \<in> \<int> \<and> 0 \<le> legOI (StrikeRecord.CE r) \<and>
      legOI (StrikeRecord.CE r) \<le> 2 ^ 53 \<and>
      legOI (StrikeRecord.PE r) \<in> \<int> \<and> 0 \<le> legOI (StrikeRecord.PE r) \<and>
      legOI (StrikeRecord.PE r) \<le> 2 ^ 53)"

definition exactRange :: "StrikeRecord list \<Rightarrow> bool" where
  "exactRange data =
     ((\<forall>r\<in>set data. safeRecord r) \<and>
      (\<forall>E\<in>set (map StrikeRecord.strikePrice data). writerLoss data E \<le> 2 ^ 53))"

text \<open>
  The range in which the two totals behind the PCR are sums without rounding: over
  the records with both legs, open interests that are non-negative integers with sums
  of at most \<open>2^53\<close>.
\<close>

definition safeTotals :: "StrikeRecord list \<Rightarrow> bool" where
  "safeTotals data =
     ((\<forall>r\<in>set (filter bothLegs data).
          legOI (StrikeRecord.CE r) \<in> \<int> \<and> 0 \<le> legOI (StrikeRecord.CE r) \<and>
          legOI (StrikeRecord.PE r) \<in> \<int> \<and> 0 \<le> legOI (StrikeRecord.PE r)) \<and>
      (\<Sum>r\<leftarrow>filter bothLegs data. legOI (StrikeRecord.CE r)) \<le> 2 ^ 53 \<and>
      (\<Sum>r\<leftarrow>filter bothLegs data. legOI (StrikeRecord.PE r)) \<le> 2 ^ 53)"

text \<open>
  The strike the specification names for support and resistance: the first record, in
  the order of the list, whose open interest is the maximum of the list.
\<close>

fun firstMaxStrike :: "(StrikeRecord \<Rightarrow> number) \<Rightarrow> StrikeRecord list \<Rightarrow> number option" where
  "firstMaxStrike oi [] = None"
| "firstMaxStrike oi (r # rs) =
     (if \<forall>x\<in>set rs. oi x \<le> oi r then Some (StrikeRecord.strikePrice r)
      else firstMaxStrike oi rs)"

definition putOIOf :: "StrikeRecord \<Rightarrow> number" where
  "putOIOf r = legOI (StrikeRecord.PE r)"

definition callOIOf :: "StrikeRecord \<Rightarrow> number" where
  "callOIOf r = legOI (StrikeRecord.CE r)"

text \<open>Descending order of the parsed timestamps (most recent first).\<close>

definition mostRecentFirst :: "(string \<Rightarrow> int option) \<Rightarrow> Snapshot list \<Rightarrow> bool" where
  "mostRecentFirst getTime xs =
     sorted_wrt (\<lambda>a b. \<exists>ta tb. getTime (Snapshot.timestamp a) = Some ta \<and>
                          getTime (Snapshot.timestamp b) = Some tb \<and> tb \<le> ta) xs"

text \<open>
  Reference notions for the retention limits. \<open>allDates\<close>: every timestamp of the list
  is a date. \<open>timeOf\<close>: the time of a summary (0 when its timestamp is no date).
  \<open>mostRecentOf getTime n xs\<close>: the first \<open>n\<close> entries of \<open>xs\<close> in descending order of
  time, entries of equal time in the order they have in \<open>xs\<close> (HOL's stable
  \<open>sort_key\<close> on the negated time). \<open>recorded calls\<close>: the summaries that a sequence of
  calls of \<open>saveSnapshot\<close> builds, in the order of the calls.
\<close>

definition allDates :: "(string \<Rightarrow> int option) \<Rightarrow> Snapshot list \<Rightarrow> bool" where
  "allDates getTime xs = (\<forall>s\<in>set xs. getTime (Snapshot.timestamp s) \<noteq> None)"

definition timeOf :: "(string \<Rightarrow> int option) \<Rightarrow> Snapshot \<Rightarrow> int" where
  "timeOf getTime s = (case getTime (Snapshot.timestamp s) of None \<Rightarrow> 0 | Some t \<Rightarrow> t)"

definition mostRecentOf :: "(string \<Rightarrow> int option) \<Rightarrow> nat \<Rightarrow> Snapshot list \<Rightarrow> Snapshot list" where
  "mostRecentOf getTime n xs = take n (sort_key (\<lambda>s. - timeOf getTime s) xs)"

definition recorded :: "(string \<times> string \<times> NSEResponse) list \<Rightarrow> Snapshot list" where
  "recorded calls = map (\<lambda>(nowId, nowIso, d). makeSnapshot nowId nowIso d) calls"

text \<open>Sample legs and records: only open interest and its change differ from 0.\<close>

definition sampleLeg :: "number \<Rightarrow> number \<Rightarrow> OptionData" where
  "sampleLeg oi oiChange =
     mkLeg ''28-Mar-2024'' ''NIFTY'' 0 0 [] oi oiChange 0 0"

definition sampleStrike :: "number \<Rightarrow> number \<Rightarrow> number \<Rightarrow> StrikeRecord" where
  "sampleStrike strike callOi' putOi' =
     \<lparr> StrikeRecord.strikePrice = strike, expiryDate = ''28-Mar-2024'',
       CE = Some (sampleLeg callOi' 0), PE = Some (sampleLeg putOi' 0) \<rparr>"


definition samplePutOnly :: "number \<Rightarrow> number \<Rightarrow> StrikeRecord" where
  "samplePutOnly strike putOi' =
     \<lparr> StrikeRecord.strikePrice = strike, expiryDate = ''28-Mar-2024'',
       CE = None, PE = Some (sampleLeg putOi' 0) \<rparr>"

text \<open>The two-strike chain of the specification's scenario.\<close>

definition sampleChain :: "StrikeRecord list" where
  "sampleChain = [sampleStrike 17900 1000 500, sampleStrike 18000 500 1500]"

text \<open>
  Three strikes whose losses are \<open>2^53 + 1\<close>, \<open>2^53\<close> and \<open>2^54 - 2\<close>, and two strikes
  whose losses exceed every finite double.
\<close>

definition sampleRounding :: "StrikeRecord list" where
  "sampleRounding =
     [sampleStrike 1 (2 ^ 53 - 1) 0, sampleStrike 2 0 (2 ^ 53 - 1), sampleStrike 3 0 1]"

definition sampleOverflow :: "StrikeRecord list" where
  "sampleOverflow = [sampleStrike 1 (2 ^ 1023) 0, sampleStrike 3 0 (2 ^ 1023)]"

text \<open>
  Three strikes that are the doubles of the decimals 0.8, 1.9 and 2.7, with small open
  interests: the writer loss is the same at the second and at the third.
\<close>

definition sampleDecimals :: "StrikeRecord list" where
  "sampleDecimals =
     [sampleStrike (roundFin (8 / 10)) 3 0, sampleStrike (roundFin (19 / 10)) 0 1,
      sampleStrike (roundFin (27 / 10)) 0 3]"

text \<open>A chain whose totals are those of the PCR scenario.\<close>

definition sampleTotals :: "StrikeRecord list" where
  "sampleTotals = [sampleStrike 22000 1500000 1200000]"

text \<open>
  Chains whose quotient of totals is \<open>1.005\<close>, and a little above \<open>0.595\<close>.
\<close>

definition sampleHalfway :: "StrikeRecord list" where
  "sampleHalfway = [sampleStrike 22000 200 201]"

definition sampleAbove :: "StrikeRecord list" where
  "sampleAbove = [sampleStrike 22000 1000000000000121 595000000000072]"

text \<open>A chain without put open interest, and a chain with a record that has no call leg.\<close>

definition sampleNoPuts :: "StrikeRecord list" where
  "sampleNoPuts = [sampleStrike 17900 1000 0, sampleStrike 18000 500 0]"

definition sampleOneLegged :: "StrikeRecord list" where
  "sampleOneLegged = [samplePutOnly 17900 9000, sampleStrike 18000 500 1500]"

text \<open>The filter keeps the indices that are the first with their timestamp.\<close>

definition firstOfTimestamp :: "Snapshot list \<Rightarrow> nat \<Rightarrow> bool" where
  "firstOfTimestamp a i =
     (\<forall>j<i. Snapshot.timestamp (a ! j) \<noteq> Snapshot.timestamp (a ! i))"

text \<open>
  A reading of \<open>getTime\<close> for the ISO strings of 28 March 2024 with whole minutes
  (\<open>2024-03-28THH:MM:00.000Z\<close>); every other string is taken as no date.
\<close>

definition sampleGetTime :: "string \<Rightarrow> int option" where
  "sampleGetTime s =
     (if take 11 s = ''2024-03-28T'' \<and> drop 16 s = '':00.000Z''
      then map_option (\<lambda>m. 1711584000000 + 60000 * m) (dateOf (take 5 (drop 11 s)))
      else None)"

text \<open>A response without strikes that carries the given timestamp.\<close>

definition sampleResponse :: "string \<Rightarrow> NSEResponse" where
  "sampleResponse ts =
     \<lparr> records = \<lparr> expiryDates = [''28-Mar-2024''], data' = [], timestamp = ts,
                   underlyingValue = 22000, strikePrices = [] \<rparr>,
       filtered = \<lparr> data' = [], CE = \<lparr> totOI = 0, totVol = 0 \<rparr>,
                    PE = \<lparr> totOI = 0, totVol = 0 \<rparr> \<rparr> \<rparr>"

text \<open>
  101 calls of \<open>saveSnapshot\<close>, one per minute from 09:15 on, for a response whose own
  timestamp has no \<open>T\<close>; and three calls out of order.
\<close>

definition sampleCalls :: "(string \<times> string \<times> NSEResponse) list" where
  "sampleCalls =
     map (\<lambda>i. (toStringNat i, ''2024-03-28T'' @ timeLabel (555 + int i) @ '':00.000Z'',
               sampleResponse ''28-Mar-2024 15:30:00''))
       [0..<101]"

definition sampleThreeCalls :: "(string \<times> string \<times> NSEResponse) list" where
  "sampleThreeCalls =
     [(''1'', ''2024-03-28T09:15:00.000Z'', sampleResponse ''28-Mar-2024 09:15:00''),
      (''2'', ''2024-03-28T09:45:00.000Z'', sampleResponse ''28-Mar-2024 09:45:00''),
      (''3'', ''2024-03-28T09:30:00.000Z'', sampleResponse ''28-Mar-2024 09:30:00'')]"

definition sampleSummary :: "string \<Rightarrow> Snapshot" where
  "sampleSummary ts = makeSnapshot ''backfill'' ts (sampleResponse ts)"

text \<open>
  A summary recorded live at 09:15, and a backfill batch that holds a summary with the
  same timestamp and one for 09:30.
\<close>

definition sampleLive :: Snapshot where
  "sampleLive =
     makeSnapshot ''1'' ''2024-03-28T09:15:00.000Z'' (sampleResponse ''28-Mar-2024 09:15:00'')"

definition sampleBackfill :: "Snapshot list" where
  "sampleBackfill =
     [sampleSummary ''2024-03-28T09:15:00.000Z'', sampleSummary ''2024-03-28T09:30:00.000Z'']"

text \<open>
  A reading of the built-ins on strings of decimal digits, payloads with an empty
  strike mapping and the underlying prices 22000 and 0, and a payload with the price
  22000 whose mapping holds one object and one \<open>null\<close>.
\<close>

definition sampleBuiltins :: Builtins where
  "sampleBuiltins =
     \<lparr> parseFloat = (\<lambda>s. case NumberJS s of Some n \<Rightarrow> of_int n | None \<Rightarrow> 0),
       parseInt = (\<lambda>s. case NumberJS s of Some n \<Rightarrow> of_int n | None \<Rightarrow> 0),
       numberToString = (\<lambda>n. toStringNat (nat \<lfloor>n\<rfloor>)) \<rparr>"

definition sampleBody :: "number \<Rightarrow> Body" where
  "sampleBody price =
     \<lparr> inputData = Some \<lparr> InputData.lp = Some (JNum price), tradingDate = Some ''2024-03-28'' \<rparr>,
       stockData = None, oiData = Some [] \<rparr>"

definition sampleEntry :: RawStrike where
  "sampleEntry =
     \<lparr> callOi = Some (JStr ''1000''), callOiChange = None, callVol = None, callLtp = None,
       putOi = Some (JNum 500), putOiChange = None, putVol = None, putLtp = None \<rparr>"

definition sampleBodyOf :: "(string \<times> RawStrike option) list \<Rightarrow> Body" where
  "sampleBodyOf m =
     \<lparr> inputData = Some \<lparr> InputData.lp = Some (JNum 22000), tradingDate = Some ''2024-03-28'' \<rparr>,
       stockData = None, oiData = Some m \<rparr>"

definition sampleNullEntry :: Body where
  "sampleNullEntry = sampleBodyOf [(''17900'', Some sampleEntry), (''18000'', None)]"

text \<open>An ok response whose head reports the status \<open>'0'\<close>, around such a body.\<close>

definition samplePayload :: "number \<Rightarrow> Response" where
  "samplePayload price =
     \<lparr> ok = True,
       json = \<lparr> head = Some \<lparr> status = Some (JStr ''0'') \<rparr>, body = Some (sampleBody price) \<rparr> \<rparr>"


section \<open>Verification of the analytics engine\<close>

subsection \<open>Rounding to the nearest double\<close>

declare expUp.simps [simp del]

lemma pow2_power_int: "pow2 k = power_int 2 k"
  unfolding pow2_def power_int_def by (simp add: inverse_eq_divide power_one_over)

lemma pow2_1 [simp]: "pow2 1 = 2"
  by (simp add: pow2_def)

lemma pow2_pos [simp]: "0 < pow2 k"
  by (simp add: pow2_power_int)

lemma pow2_add: "pow2 (a + b) = pow2 a * pow2 b"
  by (simp add: pow2_power_int power_int_add)

lemma pow2_mono: "a \<le> b \<Longrightarrow> pow2 a \<le> pow2 b"
  by (simp add: pow2_power_int power_int_increasing)

lemma pow2_less_imp: "pow2 a < pow2 b \<Longrightarrow> a < b"
  using pow2_mono [of b a] by (cases "a < b") simp_all

lemma pow2_nat: "pow2 (int n) = 2 ^ n"
  by (simp add: pow2_def)

lemma pow2_neg_nat: "pow2 (- int n) = 1 / 2 ^ n"
  by (simp add: pow2_power_int power_int_minus inverse_eq_divide)

lemma expUp_bounds: "1 \<le> x \<Longrightarrow> 2 ^ expUp x \<le> x \<and> x < 2 ^ Suc (expUp x)"
proof (induction x rule: expUp.induct)
  case (1 x)
  show ?case
  proof (cases "2 \<le> x")
    case True
    then have "1 \<le> x / 2" by simp
    with 1 True have "2 ^ expUp (x / 2) \<le> x / 2 \<and> x / 2 < 2 ^ Suc (expUp (x / 2))"
      by blast
    with True show ?thesis
      by (subst (1 2) expUp.simps) (simp add: field_simps)
  next
    case False
    with 1 show ?thesis
      by (subst (1 2) expUp.simps) simp
  qed
qed

lemma expo_bounds:
  assumes "0 < x"
  shows "pow2 (expo x) \<le> x \<and> x < pow2 (expo x + 1)"
proof (cases "1 \<le> x")
  case True
  from expUp_bounds [OF True] True show ?thesis
    by (simp add: expo_def pow2_nat pow2_add)
next
  case False
  define k where "k = expUp (1 / x)"
  from False assms have "1 \<le> 1 / x" by simp
  from expUp_bounds [OF this] have b: "2 ^ k \<le> 1 / x" "1 / x < 2 * 2 ^ k"
    by (simp_all add: k_def)
  show ?thesis
  proof (cases "1 / x = 2 ^ k")
    case True
    then have x: "x = 1 / 2 ^ k"
      using assms by (simp add: field_simps)
    have e: "expo x = - int k"
      using False True by (simp add: expo_def k_def Let_def)
    have "(1::rat) / 2 ^ k < 2 / 2 ^ k"
      by (simp add: divide_strict_right_mono)
    then show ?thesis
      unfolding e pow2_add pow2_neg_nat by (simp add: x)
  next
    case neq: False
    have e: "expo x = - int k - 1"
      using False neq by (simp add: expo_def k_def Let_def)
    from b(1) neq have "2 ^ k < 1 / x" by simp
    with assms have up: "x < 1 / 2 ^ k"
      by (simp add: field_simps)
    from b(2) assms have lo: "1 / (2 * 2 ^ k) < x"
      by (simp add: field_simps)
    have "- int k - 1 = - int (Suc k)" by simp
    then have "pow2 (- int k - 1) = 1 / (2 * 2 ^ k)"
      using pow2_neg_nat [of "Suc k"] by (simp only: power_Suc)
    with lo up show ?thesis
      unfolding e by (simp add: pow2_neg_nat)
  qed
qed

lemma expo_eqI:
  assumes "pow2 k \<le> x" "x < pow2 (k + 1)"
  shows "expo x = k"
proof -
  from assms(1) have pos: "0 < x"
    using pow2_pos [of k] by linarith
  from expo_bounds [OF pos] have b: "pow2 (expo x) \<le> x" "x < pow2 (expo x + 1)"
    by simp_all
  from b(1) assms(2) have "pow2 (expo x) < pow2 (k + 1)" by linarith
  then have "expo x < k + 1" by (rule pow2_less_imp)
  moreover from assms(1) b(2) have "pow2 k < pow2 (expo x + 1)" by linarith
  then have "k < expo x + 1" by (rule pow2_less_imp)
  ultimately show ?thesis by simp
qed

lemma roundHalfEven_of_int [simp]: "roundHalfEven (of_int n) = n"
  by (simp add: roundHalfEven_def)

lemma roundHalfEven_near: "\<bar>of_int (roundHalfEven y) - y\<bar> \<le> 1 / 2"
proof -
  define f where "f = \<lfloor>y\<rfloor>"
  have b: "of_int f \<le> y" "y < of_int f + 1"
    unfolding f_def by linarith+
  show ?thesis
    unfolding roundHalfEven_def Let_def f_def [symmetric] using b by (auto simp: abs_le_iff)
qed

lemma quantum_pos [simp]: "0 < quantum x"
  by (simp add: quantum_def)

lemma roundFin_exact:
  assumes "x / quantum x = of_int n"
  shows "roundFin x = x"
proof -
  have "quantum x \<noteq> 0"
    using quantum_pos [of x] by linarith
  with assms have "x = of_int n * quantum x"
    by (simp add: field_simps)
  with assms show ?thesis
    by (simp add: roundFin_def)
qed


lemma pow2_0 [simp]: "pow2 0 = 1"
  by (simp add: pow2_def)

lemma pow2_minus: "pow2 (- k) = 1 / pow2 k"
proof -
  have "pow2 (- k) * pow2 k = 1"
    using pow2_add [of "- k" k] by simp
  moreover have "pow2 k \<noteq> 0"
    using pow2_pos [of k] by linarith
  ultimately show ?thesis
    by (simp add: eq_divide_eq)
qed

lemma pow2_numeral [simp]: "pow2 (numeral n) = 2 ^ numeral n"
  by (simp add: pow2_def)

lemma pow2_neg_numeral [simp]: "pow2 (- numeral n) = 1 / 2 ^ numeral n"
  by (simp add: pow2_minus)

lemma pow2_neg_1 [simp]: "pow2 (- 1) = 1 / 2"
  by (simp add: pow2_minus)

lemma expo_int_range:
  fixes n :: int
  assumes "n \<noteq> 0" "\<bar>n\<bar> \<le> 2 ^ 53"
  shows "0 \<le> expo \<bar>of_int n\<bar> \<and> expo \<bar>of_int n\<bar> \<le> 53"
proof -
  let ?a = "\<bar>of_int n\<bar> :: rat"
  from assms(1) have "1 \<le> \<bar>n\<bar>" by simp
  then have "(of_int 1 :: rat) \<le> of_int \<bar>n\<bar>" by (simp only: of_int_le_iff)
  then have one: "1 \<le> ?a" by simp
  then have pos: "0 < ?a" by linarith
  from expo_bounds [OF pos] have b: "pow2 (expo ?a) \<le> ?a" "?a < pow2 (expo ?a + 1)"
    by simp_all
  from one b(2) have "pow2 0 < pow2 (expo ?a + 1)" by simp
  then have lo: "0 < expo ?a + 1" by (rule pow2_less_imp)
  from assms(2) have "(of_int \<bar>n\<bar> :: rat) \<le> of_int (2 ^ 53)" by (simp only: of_int_le_iff)
  then have "?a \<le> 2 ^ 53" by simp
  with b(1) have "pow2 (expo ?a) < pow2 54" by simp
  then have "expo ?a < 54" by (rule pow2_less_imp)
  with lo show ?thesis by simp
qed

lemma roundFin_of_int:
  fixes n :: int
  assumes "\<bar>n\<bar> \<le> 2 ^ 53"
  shows "roundFin (of_int n) = of_int n"
proof (cases "n = 0")
  case True
  then show ?thesis by (simp add: roundFin_def)
next
  case False
  let ?x = "of_int n :: rat"
  define e where "e = expo \<bar>?x\<bar>"
  from expo_int_range [OF False assms] have e: "0 \<le> e" "e \<le> 53"
    by (simp_all add: e_def)
  then have q: "quantum ?x = pow2 (e - 52)"
    by (simp add: quantum_def e_def [symmetric] max_def)
  show ?thesis
  proof (cases "e \<le> 52")
    case True
    then have "pow2 (e - 52) = 1 / 2 ^ nat (52 - e)"
      using pow2_neg_nat [of "nat (52 - e)"] by simp
    then have "?x / quantum ?x = of_int (n * 2 ^ nat (52 - e))"
      by (simp add: q)
    then show ?thesis by (rule roundFin_exact)
  next
    case False
    with e have e53: "e = 53" by simp
    have pos: "0 < \<bar>?x\<bar>"
      using \<open>n \<noteq> 0\<close> by simp
    from expo_bounds [OF pos] have "pow2 53 \<le> \<bar>?x\<bar>"
      by (simp add: e_def [symmetric] e53)
    then have "(of_int (2 ^ 53) :: rat) \<le> of_int \<bar>n\<bar>" by simp
    then have "2 ^ 53 \<le> \<bar>n\<bar>" by (simp only: of_int_le_iff)
    with assms have "\<bar>n\<bar> = 2 ^ 53" by simp
    then have "n = 2 ^ 53 \<or> n = - (2 ^ 53)"
      by (cases "0 \<le> n") (simp_all add: abs_if)
    then have "n = 2 * (n div 2)"
      by (elim disjE) simp_all
    then have "?x = of_int (2 * (n div 2))" by simp
    then have "?x = 2 * of_int (n div 2)" by (simp only: of_int_mult of_int_numeral)
    then have "?x / 2 = of_int (n div 2)" by simp
    moreover have "quantum ?x = 2" by (simp add: q e53)
    ultimately have "?x / quantum ?x = of_int (n div 2)"
      by (simp only:)
    then show ?thesis by (rule roundFin_exact)
  qed
qed

lemma roundD_of_int:
  fixes n :: int
  assumes "\<bar>n\<bar> \<le> 2 ^ 53"
  shows "roundD (of_int n) = Fin (of_int n)"
proof -
  from assms have "(of_int \<bar>n\<bar> :: rat) \<le> of_int (2 ^ 53)" by (simp only: of_int_le_iff)
  then have "\<bar>of_int n :: rat\<bar> \<le> 2 ^ 53" by simp
  moreover have "(2::rat) ^ 53 \<le> MAX_VALUE"
    by (simp add: MAX_VALUE_def)
  ultimately have "\<bar>of_int n :: rat\<bar> \<le> MAX_VALUE" by linarith
  then show ?thesis
    by (simp add: roundD_def Let_def roundFin_of_int [OF assms] abs_le_iff)
qed

lemma roundFin_error: "\<bar>roundFin x - x\<bar> \<le> quantum x / 2"
proof (cases "x = 0")
  case True
  then show ?thesis
    using quantum_pos [of 0] by (simp add: roundFin_def less_imp_le)
next
  case False
  let ?q = "quantum x"
  have q: "0 < ?q" by simp
  have "\<bar>of_int (roundHalfEven (x / ?q)) - x / ?q\<bar> \<le> 1 / 2"
    by (rule roundHalfEven_near)
  then have "\<bar>of_int (roundHalfEven (x / ?q)) - x / ?q\<bar> * ?q \<le> (1 / 2) * ?q"
    by (rule mult_right_mono) (rule less_imp_le [OF q])
  moreover have "\<bar>of_int (roundHalfEven (x / ?q)) - x / ?q\<bar> * ?q
                   = \<bar>of_int (roundHalfEven (x / ?q)) * ?q - x\<bar>"
  proof -
    have "\<bar>of_int (roundHalfEven (x / ?q)) - x / ?q\<bar> * ?q
            = \<bar>(of_int (roundHalfEven (x / ?q)) - x / ?q) * ?q\<bar>"
      using q by (simp only: abs_mult abs_of_pos)
    also have "(of_int (roundHalfEven (x / ?q)) - x / ?q) * ?q
                 = of_int (roundHalfEven (x / ?q)) * ?q - x"
      using q by (simp add: left_diff_distrib less_imp_neq [THEN not_sym])
    finally show ?thesis .
  qed
  ultimately show ?thesis
    using False by (simp add: roundFin_def)
qed

text \<open>In the normal range the rounding error is at most \<open>2^-53\<close> of the magnitude.\<close>

lemma roundFin_relative:
  assumes "1 / 2 ^ 1022 \<le> \<bar>x\<bar>"
  shows "\<bar>roundFin x - x\<bar> \<le> \<bar>x\<bar> / 2 ^ 53"
proof -
  have "(0::rat) < 1 / 2 ^ 1022" by simp
  with assms have pos: "0 < \<bar>x\<bar>" by linarith
  from expo_bounds [OF pos] have b: "pow2 (expo \<bar>x\<bar>) \<le> \<bar>x\<bar>" "\<bar>x\<bar> < pow2 (expo \<bar>x\<bar> + 1)"
    by simp_all
  from assms have "pow2 (- 1022) \<le> \<bar>x\<bar>" by simp
  with b(2) have "pow2 (- 1022) < pow2 (expo \<bar>x\<bar> + 1)" by linarith
  then have "- 1022 < expo \<bar>x\<bar> + 1" by (rule pow2_less_imp)
  then have "quantum x = pow2 (expo \<bar>x\<bar> + (- 52))"
    by (simp add: quantum_def max_def)
  also have "\<dots> = pow2 (expo \<bar>x\<bar>) / 2 ^ 52"
    unfolding pow2_add by simp
  finally have "quantum x \<le> \<bar>x\<bar> / 2 ^ 52"
    using b(1) by (simp add: divide_right_mono)
  with roundFin_error [of x] show ?thesis
    by simp
qed


lemma roundHalfEven_eqI:
  assumes "\<bar>y - of_int m\<bar> < 1 / 2"
  shows "roundHalfEven y = m"
proof -
  define f where "f = \<lfloor>y\<rfloor>"
  have b: "of_int f \<le> y" "y < of_int f + 1"
    unfolding f_def by linarith+
  have "of_int m - 1 / 2 < y" "y < of_int m + 1 / 2"
    using assms by linarith+
  with b have "of_int f < (of_int m :: rat) + 1" "of_int m < (of_int f :: rat) + 2"
    by linarith+
  then have "(of_int f :: rat) < of_int (m + 1)" "(of_int m :: rat) < of_int (f + 2)"
    by simp_all
  then have "f < m + 1" "m < f + 2"
    by (simp_all only: of_int_less_iff)
  then have "f = m \<or> f = m - 1" by linarith
  then show ?thesis
  proof
    assume "f = m"
    with \<open>y < of_int m + 1 / 2\<close> show ?thesis
      by (simp add: roundHalfEven_def Let_def f_def [symmetric])
  next
    assume fm: "f = m - 1"
    with \<open>of_int m - 1 / 2 < y\<close> have "\<not> y - of_int f < 1 / 2" "1 / 2 < y - of_int f"
      by simp_all
    then show ?thesis
      by (simp add: roundHalfEven_def Let_def f_def [symmetric] fm)
  qed
qed

lemma roundHalfEven_tie:
  assumes "y = of_int m + 1 / 2"
  shows "roundHalfEven y = (if even m then m else m + 1)"
proof -
  have "\<lfloor>y\<rfloor> = m"
    unfolding assms by (rule floor_unique) simp_all
  then show ?thesis
    by (simp add: roundHalfEven_def Let_def assms)
qed

lemma roundFin_eqI:
  assumes "pow2 k \<le> \<bar>x\<bar>" "\<bar>x\<bar> < pow2 (k + 1)" "- 1022 \<le> k"
    and "roundHalfEven (x / pow2 (k - 52)) = m"
  shows "roundFin x = of_int m * pow2 (k - 52)"
proof -
  from assms(1,2) have "expo \<bar>x\<bar> = k" by (rule expo_eqI)
  with assms(3) have "quantum x = pow2 (k - 52)"
    by (simp add: quantum_def max_def)
  moreover have "0 < \<bar>x\<bar>"
    using pow2_pos [of k] assms(1) by linarith
  then have "x \<noteq> 0" by simp
  ultimately show ?thesis
    using assms(4) by (simp add: roundFin_def)
qed

text \<open>Values of the rounding at given numbers, from the binary exponent and the nearest integer.\<close>

lemma roundFin_value:
  assumes "x = v"
    and "pow2 k \<le> \<bar>v\<bar>" "\<bar>v\<bar> < pow2 (k + 1)" "- 1022 \<le> k"
    and "\<bar>v / pow2 (k - 52) - of_int m\<bar> < 1 / 2"
    and "r = of_int m * pow2 (k - 52)"
  shows "roundFin x = r"
proof -
  from assms(5) have "roundHalfEven (v / pow2 (k - 52)) = m"
    by (rule roundHalfEven_eqI)
  from roundFin_eqI [OF assms(2-4) this] assms(1,6) show ?thesis
    by simp
qed

lemma roundD_Ints:
  assumes "x \<in> \<int>" "\<bar>x\<bar> \<le> 2 ^ 53"
  shows "roundD x = Fin x"
proof -
  from assms(1) obtain n where x: "x = of_int n"
    by (auto elim: Ints_cases)
  with assms(2) have "(of_int \<bar>n\<bar> :: rat) \<le> of_int (2 ^ 53)"
    by simp
  then have "\<bar>n\<bar> \<le> 2 ^ 53"
    by (simp only: of_int_le_iff)
  then show ?thesis
    unfolding x by (rule roundD_of_int)
qed

text \<open>The comparison of doubles is a strict order in which \<open>NaN\<close> is below and above nothing.\<close>

lemma flt_trans: "flt a b \<Longrightarrow> flt b c \<Longrightarrow> flt a c"
  by (cases a; cases b; cases c) simp_all

lemma flt_asym: "flt a b \<Longrightarrow> \<not> flt b a"
  by (cases a; cases b) simp_all

lemma flt_not_trans: "\<not> flt x m \<Longrightarrow> flt y m \<Longrightarrow> x = NaN \<or> flt y x"
  by (cases x; cases m; cases y) simp_all

subsection \<open>The loops of calculateMaxPain\<close>

lemma foldl_painStep_keep:
  "\<forall>x\<in>set xs. \<not> flt (totalLossAt data x) (fst st) \<Longrightarrow> foldl (painStep data) st xs = st"
  by (induction xs arbitrary: st) (simp_all add: painStep_def Let_def)

lemma fst_painStep:
  "fst (painStep data st x) = fst st \<and> \<not> flt (totalLossAt data x) (fst st) \<or>
   fst (painStep data st x) = totalLossAt data x \<and> flt (totalLossAt data x) (fst st)"
  by (simp add: painStep_def Let_def)

lemma foldl_painStep_pick:
  assumes "\<exists>x\<in>set xs. flt (totalLossAt data x) (fst st)"
  shows "\<exists>i<length xs.
           foldl (painStep data) st xs = (totalLossAt data (xs ! i), xs ! i) \<and>
           flt (totalLossAt data (xs ! i)) (fst st) \<and>
           (\<forall>x\<in>set xs. \<not> flt (totalLossAt data x) (totalLossAt data (xs ! i))) \<and>
           (\<forall>j<i. totalLossAt data (xs ! j) = NaN \<or>
                  flt (totalLossAt data (xs ! i)) (totalLossAt data (xs ! j)))"
  using assms
proof (induction xs arbitrary: st)
  case Nil
  then show ?case by simp
next
  case (Cons x xs)
  let ?f = "totalLossAt data"
  let ?st1 = "painStep data st x"
  show ?case
  proof (cases "\<exists>y\<in>set xs. flt (?f y) (fst ?st1)")
    case True
    from Cons.IH [OF True] obtain i where i: "i < length xs"
      and res: "foldl (painStep data) ?st1 xs = (?f (xs ! i), xs ! i)"
      and lt: "flt (?f (xs ! i)) (fst ?st1)"
      and mn: "\<forall>y\<in>set xs. \<not> flt (?f y) (?f (xs ! i))"
      and fs: "\<forall>j<i. ?f (xs ! j) = NaN \<or> flt (?f (xs ! i)) (?f (xs ! j))"
      by blast
    from fst_painStep [of data st x] lt
    have below: "flt (?f (xs ! i)) (fst st)"
      by (auto intro: flt_trans)
    from fst_painStep [of data st x] lt
    have head: "?f x = NaN \<or> flt (?f (xs ! i)) (?f x)"
      by (auto dest: flt_not_trans)
    then have nothead: "\<not> flt (?f x) (?f (xs ! i))"
      by (auto dest: flt_asym)
    have "\<forall>j<Suc i. ?f ((x # xs) ! j) = NaN \<or> flt (?f ((x # xs) ! Suc i)) (?f ((x # xs) ! j))"
    proof (intro allI impI)
      fix j assume "j < Suc i"
      then show "?f ((x # xs) ! j) = NaN \<or> flt (?f ((x # xs) ! Suc i)) (?f ((x # xs) ! j))"
        using fs head by (cases j) auto
    qed
    moreover have "\<forall>y\<in>set (x # xs). \<not> flt (?f y) (?f ((x # xs) ! Suc i))"
      using mn nothead by auto
    ultimately show ?thesis
      using i res below by (intro exI [of _ "Suc i"]) auto
  next
    case False
    then have "\<forall>y\<in>set xs. \<not> flt (?f y) (fst ?st1)"
      by blast
    then have res: "foldl (painStep data) ?st1 xs = ?st1"
      by (rule foldl_painStep_keep)
    from Cons.prems False have x: "flt (?f x) (fst st)"
      by (auto simp: painStep_def Let_def split: if_splits)
    then have st1: "?st1 = (?f x, x)"
      by (simp add: painStep_def Let_def)
    from False st1 have "\<forall>y\<in>set xs. \<not> flt (?f y) (?f x)"
      by simp
    moreover from x have "\<not> flt (?f x) (?f x)"
      by (auto dest: flt_asym)
    ultimately show ?thesis
      using res st1 x by (intro exI [of _ 0]) auto
  qed
qed

text \<open>
  What \<open>calculateMaxPain\<close> returns on every non-empty list, in terms of the losses it
  computes.
\<close>

lemma calculateMaxPain_none:
  assumes ne: "data \<noteq> []"
    and none: "\<forall>E\<in>set (map StrikeRecord.strikePrice data).
                 \<not> flt (totalLossAt data E) (Fin MAX_VALUE)"
  shows "calculateMaxPain data = 0"
proof -
  from none have "\<forall>x\<in>set (sort (map StrikeRecord.strikePrice data)).
      \<not> flt (totalLossAt data x) (fst (Fin MAX_VALUE, 0::number))"
    by simp
  from foldl_painStep_keep [OF this] ne show ?thesis
    by (simp add: calculateMaxPain_def)
qed

lemma calculateMaxPain_first_min:
  assumes ne: "data \<noteq> []"
    and fin: "\<exists>E\<in>set (map StrikeRecord.strikePrice data). flt (totalLossAt data E) (Fin MAX_VALUE)"
  shows "calculateMaxPain data \<in> set (map StrikeRecord.strikePrice data)"
    and "flt (totalLossAt data (calculateMaxPain data)) (Fin MAX_VALUE)"
    and "\<forall>E\<in>set (map StrikeRecord.strikePrice data).
           \<not> flt (totalLossAt data E) (totalLossAt data (calculateMaxPain data))"
    and "\<forall>E\<in>set (map StrikeRecord.strikePrice data).
           E < calculateMaxPain data \<longrightarrow>
             totalLossAt data E = NaN \<or>
             flt (totalLossAt data (calculateMaxPain data)) (totalLossAt data E)"
proof -
  let ?f = "totalLossAt data"
  let ?xs = "sort (map StrikeRecord.strikePrice data)"
  have set_xs: "set ?xs = set (map StrikeRecord.strikePrice data)"
    by simp
  from fin have "\<exists>x\<in>set ?xs. flt (?f x) (fst (Fin MAX_VALUE, 0::number))"
    by simp
  from foldl_painStep_pick [OF this] obtain i where i: "i < length ?xs"
    and res: "foldl (painStep data) (Fin MAX_VALUE, 0) ?xs = (?f (?xs ! i), ?xs ! i)"
    and lt: "flt (?f (?xs ! i)) (Fin MAX_VALUE)"
    and mn: "\<forall>x\<in>set ?xs. \<not> flt (?f x) (?f (?xs ! i))"
    and fs: "\<forall>j<i. ?f (?xs ! j) = NaN \<or> flt (?f (?xs ! i)) (?f (?xs ! j))"
    by auto
  from ne res have mp: "calculateMaxPain data = ?xs ! i"
    by (simp add: calculateMaxPain_def)
  from i have "?xs ! i \<in> set ?xs"
    by (rule nth_mem)
  with mp set_xs show "calculateMaxPain data \<in> set (map StrikeRecord.strikePrice data)"
    by simp
  from lt mp show "flt (?f (calculateMaxPain data)) (Fin MAX_VALUE)"
    by simp
  from mn mp set_xs show "\<forall>E\<in>set (map StrikeRecord.strikePrice data).
      \<not> flt (?f E) (?f (calculateMaxPain data))"
    by simp
  show "\<forall>E\<in>set (map StrikeRecord.strikePrice data).
      E < calculateMaxPain data \<longrightarrow> ?f E = NaN \<or> flt (?f (calculateMaxPain data)) (?f E)"
  proof (intro ballI impI)
    fix E
    assume "E \<in> set (map StrikeRecord.strikePrice data)" and less: "E < calculateMaxPain data"
    then have "E \<in> set ?xs" by simp
    then obtain k where k: "k < length ?xs" and E: "?xs ! k = E"
      unfolding in_set_conv_nth by blast
    have "k < i"
    proof (rule ccontr)
      assume "\<not> k < i"
      then have "i \<le> k" by simp
      then have "?xs ! i \<le> ?xs ! k"
        using k by (intro sorted_nth_mono) simp_all
      with mp E less show False by simp
    qed
    with fs E mp show "?f E = NaN \<or> flt (?f (calculateMaxPain data)) (?f E)"
      by auto
  qed
qed

subsection \<open>Losses that are computed without rounding\<close>

lemma writerLoss_recordLoss: "writerLoss data E = (\<Sum>r\<leftarrow>data. recordLoss E r)"
  by (simp add: writerLoss_def recordLoss_def sum_list_addf)

lemma recordLoss_nonneg: "safeRecord r \<Longrightarrow> 0 \<le> recordLoss E r"
  by (simp add: recordLoss_def safeRecord_def)

lemma recordLoss_Ints: "safeRecord r \<Longrightarrow> E \<in> \<int> \<Longrightarrow> recordLoss E r \<in> \<int>"
  by (simp add: recordLoss_def safeRecord_def)

lemma lossStep_exact:
  assumes r: "safeRecord r"
    and E: "E \<in> \<int>" "\<bar>E\<bar> \<le> 2 ^ 52"
    and a: "a \<in> \<int>" "0 \<le> a"
    and le: "a + recordLoss E r \<le> 2 ^ 53"
  shows "lossStep E (Fin a) r = Fin (a + recordLoss E r)"
proof -
  let ?S = "StrikeRecord.strikePrice r"
  from r have S: "?S \<in> \<int>" "\<bar>?S\<bar> \<le> 2 ^ 52"
    and ce: "legOI (StrikeRecord.CE r) \<in> \<int>" "0 \<le> legOI (StrikeRecord.CE r)"
    and pe: "legOI (StrikeRecord.PE r) \<in> \<int>" "0 \<le> legOI (StrikeRecord.PE r)"
    by (simp_all add: safeRecord_def)
  have step: "fadd (Fin a) (fmul (roundD d) (Fin oi)) = Fin (a + d * oi)"
    if d: "d \<in> \<int>" "\<bar>d\<bar> \<le> 2 ^ 53" "0 \<le> d" and oi: "oi \<in> \<int>" "0 \<le> oi"
      and sum: "a + d * oi \<le> 2 ^ 53" for d oi
  proof -
    from d have "roundD d = Fin d"
      by (intro roundD_Ints)
    moreover have "0 \<le> d * oi"
      using d(3) oi(2) by simp
    then have "roundD (d * oi) = Fin (d * oi)"
      using d(1) oi(1) sum a(2) by (intro roundD_Ints) simp_all
    moreover have "roundD (a + d * oi) = Fin (a + d * oi)"
      using d(1) oi(1) a sum \<open>0 \<le> d * oi\<close> by (intro roundD_Ints) simp_all
    ultimately show ?thesis by simp
  qed
  consider "?S < E" | "E < ?S" | "?S = E" by linarith
  then show ?thesis
  proof cases
    case 1
    have "E - ?S \<in> \<int>" "\<bar>E - ?S\<bar> \<le> 2 ^ 53" "0 \<le> E - ?S"
      using E S 1 by simp_all
    moreover from le 1 have "a + (E - ?S) * legOI (StrikeRecord.CE r) \<le> 2 ^ 53"
      by (simp add: recordLoss_def)
    ultimately have "fadd (Fin a) (fmul (roundD (E - ?S)) (Fin (legOI (StrikeRecord.CE r))))
        = Fin (a + (E - ?S) * legOI (StrikeRecord.CE r))"
      using ce by (intro step)
    with 1 show ?thesis
      by (simp add: lossStep_def Let_def recordLoss_def)
  next
    case 2
    have "?S - E \<in> \<int>" "\<bar>?S - E\<bar> \<le> 2 ^ 53" "0 \<le> ?S - E"
      using E S 2 by simp_all
    moreover from le 2 have "a + (?S - E) * legOI (StrikeRecord.PE r) \<le> 2 ^ 53"
      by (simp add: recordLoss_def)
    ultimately have "fadd (Fin a) (fmul (roundD (?S - E)) (Fin (legOI (StrikeRecord.PE r))))
        = Fin (a + (?S - E) * legOI (StrikeRecord.PE r))"
      using pe by (intro step)
    with 2 show ?thesis
      by (simp add: lossStep_def Let_def recordLoss_def)
  next
    case 3
    then show ?thesis
      by (simp add: lossStep_def Let_def recordLoss_def)
  qed
qed

lemma foldl_lossStep_exact:
  assumes "\<forall>r\<in>set rs. safeRecord r"
    and E: "E \<in> \<int>" "\<bar>E\<bar> \<le> 2 ^ 52"
    and "a \<in> \<int>" "0 \<le> a"
    and "a + (\<Sum>r\<leftarrow>rs. recordLoss E r) \<le> 2 ^ 53"
  shows "foldl (lossStep E) (Fin a) rs = Fin (a + (\<Sum>r\<leftarrow>rs. recordLoss E r))"
  using assms
proof (induction rs arbitrary: a)
  case Nil
  show ?case by simp
next
  case (Cons r rs)
  from Cons.prems(1) have r: "safeRecord r" and rs: "\<forall>r\<in>set rs. safeRecord r"
    by simp_all
  have rest: "0 \<le> (\<Sum>r\<leftarrow>rs. recordLoss E r)"
    using rs by (intro sum_list_nonneg) (auto simp: recordLoss_nonneg)
  from Cons.prems(6) rest have "a + recordLoss E r \<le> 2 ^ 53"
    by simp
  with r E Cons.prems(4,5) have st: "lossStep E (Fin a) r = Fin (a + recordLoss E r)"
    by (intro lossStep_exact)
  have "foldl (lossStep E) (Fin (a + recordLoss E r)) rs
          = Fin (a + recordLoss E r + (\<Sum>r\<leftarrow>rs. recordLoss E r))"
  proof (rule Cons.IH [OF rs E])
    show "a + recordLoss E r \<in> \<int>"
      using Cons.prems(4) recordLoss_Ints [OF r E(1)] by simp
    show "0 \<le> a + recordLoss E r"
      using Cons.prems(5) recordLoss_nonneg [OF r, of E] by simp
    show "a + recordLoss E r + (\<Sum>r\<leftarrow>rs. recordLoss E r) \<le> 2 ^ 53"
      using Cons.prems(6) by (simp add: add.assoc)
  qed
  with st show ?case
    by (simp add: add.assoc)
qed

lemma totalLossAt_exact:
  assumes "exactRange data" "E \<in> set (map StrikeRecord.strikePrice data)"
  shows "totalLossAt data E = Fin (writerLoss data E)"
proof -
  from assms obtain r where "r \<in> set data" "E = StrikeRecord.strikePrice r"
    by auto
  with assms(1) have E: "E \<in> \<int>" "\<bar>E\<bar> \<le> 2 ^ 52"
    by (auto simp: exactRange_def safeRecord_def)
  from assms have "writerLoss data E \<le> 2 ^ 53"
    unfolding exactRange_def by blast
  then have "0 + (\<Sum>r\<leftarrow>data. recordLoss E r) \<le> 2 ^ 53"
    by (simp add: writerLoss_recordLoss)
  with assms(1) E have "foldl (lossStep E) (Fin 0) data = Fin (0 + (\<Sum>r\<leftarrow>data. recordLoss E r))"
    by (intro foldl_lossStep_exact) (simp_all add: exactRange_def)
  then show ?thesis
    by (simp add: totalLossAt_def writerLoss_recordLoss)
qed

lemma calculateMaxPain_exact:
  assumes ne: "data \<noteq> []" and ex: "exactRange data"
  shows "calculateMaxPain data \<in> set (map StrikeRecord.strikePrice data)"
    and "\<forall>E\<in>set (map StrikeRecord.strikePrice data).
           writerLoss data (calculateMaxPain data) \<le> writerLoss data E \<and>
           (writerLoss data E = writerLoss data (calculateMaxPain data)
              \<longrightarrow> calculateMaxPain data \<le> E)"
proof -
  have big: "(2::rat) ^ 53 < MAX_VALUE"
    by (simp add: MAX_VALUE_def)
  from ne obtain E0 where E0: "E0 \<in> set (map StrikeRecord.strikePrice data)"
    by (cases data) auto
  with ex have "writerLoss data E0 \<le> 2 ^ 53"
    unfolding exactRange_def by blast
  with big totalLossAt_exact [OF ex E0] have "flt (totalLossAt data E0) (Fin MAX_VALUE)"
    by simp
  with E0 have fin: "\<exists>E\<in>set (map StrikeRecord.strikePrice data).
      flt (totalLossAt data E) (Fin MAX_VALUE)"
    by blast
  note res = calculateMaxPain_first_min [OF ne fin]
  from res(1) show mem: "calculateMaxPain data \<in> set (map StrikeRecord.strikePrice data)" .
  show "\<forall>E\<in>set (map StrikeRecord.strikePrice data).
           writerLoss data (calculateMaxPain data) \<le> writerLoss data E \<and>
           (writerLoss data E = writerLoss data (calculateMaxPain data)
              \<longrightarrow> calculateMaxPain data \<le> E)"
  proof (intro ballI conjI impI)
    fix E assume E: "E \<in> set (map StrikeRecord.strikePrice data)"
    with res(3) have "\<not> flt (totalLossAt data E) (totalLossAt data (calculateMaxPain data))"
      by blast
    then show "writerLoss data (calculateMaxPain data) \<le> writerLoss data E"
      by (simp add: totalLossAt_exact [OF ex E] totalLossAt_exact [OF ex mem])
    assume eq: "writerLoss data E = writerLoss data (calculateMaxPain data)"
    show "calculateMaxPain data \<le> E"
    proof (rule ccontr)
      assume "\<not> calculateMaxPain data \<le> E"
      then have "E < calculateMaxPain data" by simp
      with res(4) E have "totalLossAt data E = NaN \<or>
          flt (totalLossAt data (calculateMaxPain data)) (totalLossAt data E)"
        by blast
      with eq show False
        by (simp add: totalLossAt_exact [OF ex E] totalLossAt_exact [OF ex mem])
    qed
  qed
qed

subsection \<open>The claim about Max Pain\<close>

lemma roundD_tie: "x = 2 ^ 53 + 1 \<Longrightarrow> roundD x = Fin (2 ^ 53)"
proof -
  have "roundHalfEven ((2 ^ 53 + 1) / pow2 (53 - 52)) = 2 ^ 52"
    using roundHalfEven_tie [of "(2 ^ 53 + 1) / 2" "2 ^ 52"] by simp
  from roundFin_eqI [of 53 "2 ^ 53 + 1", OF _ _ _ this] have "roundFin (2 ^ 53 + 1) = 2 ^ 53"
    by simp
  then show "x = 2 ^ 53 + 1 \<Longrightarrow> roundD x = Fin (2 ^ 53)"
    by (simp add: roundD_def MAX_VALUE_def)
qed

lemma roundD_even: "x = 2 ^ 54 - 2 \<Longrightarrow> roundD x = Fin (2 ^ 54 - 2)"
proof -
  have "roundHalfEven ((2 ^ 54 - 2) / pow2 (53 - 52)) = 2 ^ 53 - 1"
    using roundHalfEven_of_int [of "2 ^ 53 - 1"] by simp
  from roundFin_eqI [of 53 "2 ^ 54 - 2", OF _ _ _ this] have "roundFin (2 ^ 54 - 2) = 2 ^ 54 - 2"
    by simp
  then show "x = 2 ^ 54 - 2 \<Longrightarrow> roundD x = Fin (2 ^ 54 - 2)"
    by (simp add: roundD_def MAX_VALUE_def)
qed

lemma roundD_overflow: "x = 2 ^ 1024 \<Longrightarrow> roundD x = PInf"
proof -
  have "roundHalfEven (2 ^ 1024 / pow2 (1024 - 52)) = 2 ^ 52"
    using roundHalfEven_of_int [of "2 ^ 52"] by simp
  from roundFin_eqI [of 1024 "2 ^ 1024", OF _ _ _ this] have "roundFin (2 ^ 1024) = 2 ^ 1024"
    by simp
  then show "x = 2 ^ 1024 \<Longrightarrow> roundD x = PInf"
    by (simp add: roundD_def MAX_VALUE_def)
qed

lemma sample_legs:
  "StrikeRecord.strikePrice (sampleStrike s c p) = s"
  "legOI (StrikeRecord.CE (sampleStrike s c p)) = c"
  "legOI (StrikeRecord.PE (sampleStrike s c p)) = p"
  "bothLegs (sampleStrike s c p)"
  by (simp_all add: sampleStrike_def sampleLeg_def mkLeg_def legOI_def bothLegs_def)

lemma sampleRounding_losses:
  "totalLossAt sampleRounding 1 = Fin (2 ^ 53)"
  "totalLossAt sampleRounding 2 = Fin (2 ^ 53)"
  "totalLossAt sampleRounding 3 = Fin (2 ^ 54 - 2)"
  by (simp_all add: totalLossAt_def sampleRounding_def lossStep_def Let_def sample_legs
      roundD_Ints roundD_tie roundD_even)

lemma sampleOverflow_losses:
  "totalLossAt sampleOverflow 1 = PInf"
  "totalLossAt sampleOverflow 3 = PInf"
  by (simp_all add: totalLossAt_def sampleOverflow_def lossStep_def Let_def sample_legs
      roundD_Ints roundD_overflow)

lemma roundD_value:
  assumes "x = v"
    and "pow2 k \<le> \<bar>v\<bar>" "\<bar>v\<bar> < pow2 (k + 1)" "- 1022 \<le> k"
    and "\<bar>v / pow2 (k - 52) - of_int m\<bar> < 1 / 2"
    and "r = of_int m * pow2 (k - 52)" "\<bar>r\<bar> \<le> MAX_VALUE"
  shows "roundD x = Fin r"
proof -
  from assms(5) have "roundHalfEven (v / pow2 (k - 52)) = m"
    by (rule roundHalfEven_eqI)
  from roundFin_eqI [OF assms(2-4) this] assms(1,6) have "roundFin x = r"
    by simp
  with assms(7) show ?thesis
    by (simp add: roundD_def Let_def abs_le_iff)
qed

lemma roundD_value_tie:
  assumes "x = v"
    and "pow2 k \<le> \<bar>v\<bar>" "\<bar>v\<bar> < pow2 (k + 1)" "- 1022 \<le> k"
    and "v / pow2 (k - 52) = of_int f + 1 / 2" "m = (if even f then f else f + 1)"
    and "r = of_int m * pow2 (k - 52)" "\<bar>r\<bar> \<le> MAX_VALUE"
  shows "roundD x = Fin r"
proof -
  from assms(5,6) have "roundHalfEven (v / pow2 (k - 52)) = m"
    by (simp add: roundHalfEven_tie)
  from roundFin_eqI [OF assms(2-4) this] assms(1,7) have "roundFin x = r"
    by simp
  with assms(8) show ?thesis
    by (simp add: roundD_def Let_def abs_le_iff)
qed

lemma decimal_doubles:
  "x = 4 / 5 \<Longrightarrow> roundFin x = 3602879701896397 / 4503599627370496"
  "x = 19 / 10 \<Longrightarrow> roundFin x = 4278419646001971 / 2251799813685248"
  "x = 27 / 10 \<Longrightarrow> roundFin x = 3039929748475085 / 1125899906842624"
proof -
  show "x = 4 / 5 \<Longrightarrow> roundFin x = 3602879701896397 / 4503599627370496"
    by (rule roundFin_value [where v = "4 / 5" and k = "- 1" and m = 7205759403792794]) simp_all
  show "x = 19 / 10 \<Longrightarrow> roundFin x = 4278419646001971 / 2251799813685248"
    by (rule roundFin_value [where v = "19 / 10" and k = 0 and m = 8556839292003942]) simp_all
  show "x = 27 / 10 \<Longrightarrow> roundFin x = 3039929748475085 / 1125899906842624"
    by (rule roundFin_value [where v = "27 / 10" and k = 1 and m = 6079859496950170]) simp_all
qed

lemma sampleDecimals_roundings:
  "x = 4953959590107545 / 4503599627370496 \<Longrightarrow> roundD x = Fin (4953959590107545 / 4503599627370496)"
  "x = 8556839292003943 / 4503599627370496 \<Longrightarrow> roundD x = Fin (8556839292003943 / 4503599627370496)"
  "x = 25670517876011829 / 4503599627370496 \<Longrightarrow> roundD x = Fin (6417629469002957 / 1125899906842624)"
  "x = 30624477466119373 / 4503599627370496 \<Longrightarrow> roundD x = Fin (7656119366529843 / 1125899906842624)"
  "x = 14861878770322635 / 4503599627370496 \<Longrightarrow> roundD x = Fin (3715469692580659 / 1125899906842624)"
  "x = 3715469692580659 / 1125899906842624 \<Longrightarrow> roundD x = Fin (3715469692580659 / 1125899906842624)"
  "x = 1801439850948199 / 2251799813685248 \<Longrightarrow> roundD x = Fin (1801439850948199 / 2251799813685248)"
  "x = 5404319552844597 / 2251799813685248 \<Longrightarrow> roundD x = Fin (5404319552844597 / 2251799813685248)"
  "x = 12835258938005915 / 2251799813685248 \<Longrightarrow> roundD x = Fin (3208814734501479 / 562949953421312)"
  "x = 6417629469002957 / 1125899906842624 \<Longrightarrow> roundD x = Fin (6417629469002957 / 1125899906842624)"
proof -
  show "x = 4953959590107545 / 4503599627370496 \<Longrightarrow> roundD x = Fin (4953959590107545 / 4503599627370496)"
    by (rule roundD_value [where v = "4953959590107545 / 4503599627370496" and k = 0 and m = 4953959590107545])
      (simp_all add: MAX_VALUE_def)
  show "x = 8556839292003943 / 4503599627370496 \<Longrightarrow> roundD x = Fin (8556839292003943 / 4503599627370496)"
    by (rule roundD_value [where v = "8556839292003943 / 4503599627370496" and k = 0 and m = 8556839292003943])
      (simp_all add: MAX_VALUE_def)
  show "x = 25670517876011829 / 4503599627370496 \<Longrightarrow> roundD x = Fin (6417629469002957 / 1125899906842624)"
    by (rule roundD_value [where v = "25670517876011829 / 4503599627370496" and k = 2 and m = 6417629469002957])
      (simp_all add: MAX_VALUE_def)
  show "x = 30624477466119373 / 4503599627370496 \<Longrightarrow> roundD x = Fin (7656119366529843 / 1125899906842624)"
    by (rule roundD_value [where v = "30624477466119373 / 4503599627370496" and k = 2 and m = 7656119366529843])
      (simp_all add: MAX_VALUE_def)
  show "x = 14861878770322635 / 4503599627370496 \<Longrightarrow> roundD x = Fin (3715469692580659 / 1125899906842624)"
    by (rule roundD_value_tie [where v = "14861878770322635 / 4503599627370496" and k = 1 and f = 7430939385161317 and m = 7430939385161318])
      (simp_all add: MAX_VALUE_def)
  show "x = 3715469692580659 / 1125899906842624 \<Longrightarrow> roundD x = Fin (3715469692580659 / 1125899906842624)"
    by (rule roundD_value [where v = "3715469692580659 / 1125899906842624" and k = 1 and m = 7430939385161318])
      (simp_all add: MAX_VALUE_def)
  show "x = 1801439850948199 / 2251799813685248 \<Longrightarrow> roundD x = Fin (1801439850948199 / 2251799813685248)"
    by (rule roundD_value [where v = "1801439850948199 / 2251799813685248" and k = "- 1" and m = 7205759403792796])
      (simp_all add: MAX_VALUE_def)
  show "x = 5404319552844597 / 2251799813685248 \<Longrightarrow> roundD x = Fin (5404319552844597 / 2251799813685248)"
    by (rule roundD_value [where v = "5404319552844597 / 2251799813685248" and k = 1 and m = 5404319552844597])
      (simp_all add: MAX_VALUE_def)
  show "x = 12835258938005915 / 2251799813685248 \<Longrightarrow> roundD x = Fin (3208814734501479 / 562949953421312)"
    by (rule roundD_value_tie [where v = "12835258938005915 / 2251799813685248" and k = 2 and f = 6417629469002957 and m = 6417629469002958])
      (simp_all add: MAX_VALUE_def)
  show "x = 6417629469002957 / 1125899906842624 \<Longrightarrow> roundD x = Fin (6417629469002957 / 1125899906842624)"
    by (rule roundD_value [where v = "6417629469002957 / 1125899906842624" and k = 2 and m = 6417629469002957])
      (simp_all add: MAX_VALUE_def)
qed

lemma sampleDecimals_eq:
  "sampleDecimals =
     [sampleStrike (3602879701896397 / 4503599627370496) 3 0,
      sampleStrike (4278419646001971 / 2251799813685248) 0 1,
      sampleStrike (3039929748475085 / 1125899906842624) 0 3]"
  by (simp add: sampleDecimals_def decimal_doubles)

lemma sampleDecimals_losses:
  "totalLossAt sampleDecimals (3602879701896397 / 4503599627370496)
     = Fin (7656119366529843 / 1125899906842624)"
  "totalLossAt sampleDecimals (4278419646001971 / 2251799813685248)
     = Fin (3208814734501479 / 562949953421312)"
  "totalLossAt sampleDecimals (3039929748475085 / 1125899906842624)
     = Fin (6417629469002957 / 1125899906842624)"
  unfolding sampleDecimals_eq
  by (simp_all add: totalLossAt_def lossStep_def Let_def sample_legs roundD_Ints
      sampleDecimals_roundings)

lemma sampleDecimals_writerLoss:
  "writerLoss sampleDecimals (3602879701896397 / 4503599627370496) = 15312238733059687 / 2251799813685248"
  "writerLoss sampleDecimals (4278419646001971 / 2251799813685248) = 25670517876011829 / 4503599627370496"
  "writerLoss sampleDecimals (3039929748475085 / 1125899906842624) = 25670517876011829 / 4503599627370496"
  unfolding sampleDecimals_eq
  by (simp_all add: writerLoss_def sample_legs)

lemma isDouble_value:
  assumes "x = v"
    and "pow2 k \<le> \<bar>v\<bar>" "\<bar>v\<bar> < pow2 (k + 1)" "- 1022 \<le> k"
    and "v = of_int m * pow2 (k - 52)" "\<bar>v\<bar> \<le> MAX_VALUE"
  shows "isDouble x"
proof -
  have "pow2 (k - 52) \<noteq> 0"
    using pow2_pos [of "k - 52"] by linarith
  with assms(5) have "v / pow2 (k - 52) = of_int m"
    by simp
  then have "roundHalfEven (v / pow2 (k - 52)) = m"
    by simp
  from roundFin_eqI [OF assms(2-4) this] assms(1,5,6) show ?thesis
    by (simp add: isDouble_def)
qed

lemma isDouble_decimals:
  "x = 3602879701896397 / 4503599627370496 \<Longrightarrow> isDouble x"
  "x = 4278419646001971 / 2251799813685248 \<Longrightarrow> isDouble x"
  "x = 3039929748475085 / 1125899906842624 \<Longrightarrow> isDouble x"
proof -
  show "x = 3602879701896397 / 4503599627370496 \<Longrightarrow> isDouble x"
    by (rule isDouble_value [where v = "3602879701896397 / 4503599627370496" and k = "- 1"
          and m = 7205759403792794]) (simp_all add: MAX_VALUE_def)
  show "x = 4278419646001971 / 2251799813685248 \<Longrightarrow> isDouble x"
    by (rule isDouble_value [where v = "4278419646001971 / 2251799813685248" and k = 0
          and m = 8556839292003942]) (simp_all add: MAX_VALUE_def)
  show "x = 3039929748475085 / 1125899906842624 \<Longrightarrow> isDouble x"
    by (rule isDouble_value [where v = "3039929748475085 / 1125899906842624" and k = 1
          and m = 6079859496950170]) (simp_all add: MAX_VALUE_def)
qed

lemma isDouble_Ints: "x \<in> \<int> \<Longrightarrow> \<bar>x\<bar> \<le> 2 ^ 53 \<Longrightarrow> isDouble x"
proof -
  assume x: "x \<in> \<int>" "\<bar>x\<bar> \<le> 2 ^ 53"
  then have "roundD x = Fin x"
    by (rule roundD_Ints)
  moreover have "(2::rat) ^ 53 \<le> MAX_VALUE"
    by (simp add: MAX_VALUE_def)
  with x(2) have "\<bar>x\<bar> \<le> MAX_VALUE" by linarith
  ultimately show "isDouble x"
    by (auto simp: isDouble_def roundD_def Let_def split: if_splits)
qed

lemma isDouble_big: "x = 2 ^ 1023 \<Longrightarrow> isDouble x"
  by (rule isDouble_value [where v = "2 ^ 1023" and k = 1023 and m = "2 ^ 52"])
    (simp_all add: MAX_VALUE_def)

lemma doubleRecords_samples:
  "doubleRecords sampleDecimals" "doubleRecords sampleRounding" "doubleRecords sampleOverflow"
  unfolding sampleDecimals_eq
  by (simp_all add: doubleRecords_def sampleRounding_def sampleOverflow_def sample_legs
      isDouble_Ints isDouble_big isDouble_decimals)

text \<open>
  C2, as claimed, at three lists of records whose strikes and open interests are
  doubles. On the strikes 0.8, 1.9 and 2.7 (their doubles) with call open interest 3
  at the first, put open interest 1 at the second and put open interest 3 at the
  third, the writer loss is the same at the second and at the third strike and larger
  at the first, so the strike that minimises it and is met first is the second; the
  code computes \<open>5.700000000000001\<close> at the second and \<open>5.7\<close> at the third and returns
  the third. On strikes 1, 2, 3 with call open interest \<open>2^53 - 1\<close> at 1, put open
  interest \<open>2^53 - 1\<close> at 2 and put open interest 1 at 3, the writer loss is
  \<open>2^53 + 1\<close> at 1 and \<open>2^53\<close> at 2, so the minimum is at 2; the code adds
  \<open>2^53 - 1\<close> and 2 to the double \<open>2^53\<close>, finds no smaller loss afterwards and
  returns 1. On strikes 1 and 3 with open interests \<open>2^1023\<close> every loss is
  \<open>Infinity\<close>, which is not below \<open>Number.MAX_VALUE\<close>, and the code returns 0, which is
  no strike of the list.
\<close>

theorem calculateMaxPain_rounding_counterexample:
  "doubleRecords sampleDecimals \<and>
   map StrikeRecord.strikePrice sampleDecimals
     = [roundFin (8 / 10), roundFin (19 / 10), roundFin (27 / 10)] \<and>
   roundFin (8 / 10) < roundFin (19 / 10) \<and> roundFin (19 / 10) < roundFin (27 / 10) \<and>
   writerLoss sampleDecimals (roundFin (19 / 10)) = writerLoss sampleDecimals (roundFin (27 / 10)) \<and>
   writerLoss sampleDecimals (roundFin (19 / 10)) < writerLoss sampleDecimals (roundFin (8 / 10)) \<and>
   calculateMaxPain sampleDecimals = roundFin (27 / 10) \<and>
   doubleRecords sampleRounding \<and>
   map StrikeRecord.strikePrice sampleRounding = [1, 2, 3] \<and>
   writerLoss sampleRounding 1 = 2 ^ 53 + 1 \<and>
   writerLoss sampleRounding 2 = 2 ^ 53 \<and>
   writerLoss sampleRounding 3 = 2 ^ 54 - 2 \<and>
   calculateMaxPain sampleRounding = 1 \<and>
   doubleRecords sampleOverflow \<and>
   map StrikeRecord.strikePrice sampleOverflow = [1, 3] \<and>
   calculateMaxPain sampleOverflow = 0"
proof (intro conjI)
  show "doubleRecords sampleDecimals" "doubleRecords sampleRounding" "doubleRecords sampleOverflow"
    by (rule doubleRecords_samples)+
  show "map StrikeRecord.strikePrice sampleDecimals
     = [roundFin (8 / 10), roundFin (19 / 10), roundFin (27 / 10)]"
    by (simp add: sampleDecimals_def sample_legs)
  show "roundFin (8 / 10) < roundFin (19 / 10)" "roundFin (19 / 10) < roundFin (27 / 10)"
    by (simp_all add: decimal_doubles)
  show "writerLoss sampleDecimals (roundFin (19 / 10)) = writerLoss sampleDecimals (roundFin (27 / 10))"
    "writerLoss sampleDecimals (roundFin (19 / 10)) < writerLoss sampleDecimals (roundFin (8 / 10))"
    by (simp_all add: decimal_doubles sampleDecimals_writerLoss)
  have "sampleDecimals \<noteq> []"
    and "sort (map StrikeRecord.strikePrice sampleDecimals)
           = [3602879701896397 / 4503599627370496, 4278419646001971 / 2251799813685248,
              3039929748475085 / 1125899906842624]"
    unfolding sampleDecimals_eq by (simp_all add: sample_legs)
  then show "calculateMaxPain sampleDecimals = roundFin (27 / 10)"
    by (simp add: calculateMaxPain_def painStep_def Let_def sampleDecimals_losses MAX_VALUE_def
        decimal_doubles)
  show "map StrikeRecord.strikePrice sampleRounding = [1, 2, 3]"
    by (simp add: sampleRounding_def sample_legs)
  show "writerLoss sampleRounding 1 = 2 ^ 53 + 1"
    "writerLoss sampleRounding 2 = 2 ^ 53"
    "writerLoss sampleRounding 3 = 2 ^ 54 - 2"
    by (simp_all add: writerLoss_def sampleRounding_def sample_legs)
  have "sampleRounding \<noteq> []"
    and "sort (map StrikeRecord.strikePrice sampleRounding) = [1, 2, 3]"
    by (simp_all add: sampleRounding_def sample_legs)
  then show "calculateMaxPain sampleRounding = 1"
    by (simp add: calculateMaxPain_def painStep_def Let_def sampleRounding_losses MAX_VALUE_def)
  show "map StrikeRecord.strikePrice sampleOverflow = [1, 3]"
    by (simp add: sampleOverflow_def sample_legs)
  have "sampleOverflow \<noteq> []"
    and "sort (map StrikeRecord.strikePrice sampleOverflow) = [1, 3]"
    by (simp_all add: sampleOverflow_def sample_legs)
  then show "calculateMaxPain sampleOverflow = 0"
    by (simp add: calculateMaxPain_def painStep_def Let_def sampleOverflow_losses)
qed

text \<open>
  C2, amended. On the empty list \<open>calculateMaxPain\<close> returns 0, and
  \<open>analyzeOptionChain\<close> reports the Max Pain of the records with both legs. On a
  non-empty list of records (whose strikes and open interests are doubles) the result
  is decided by the losses the code computes in doubles: when
  no strike has a computed loss below \<open>Number.MAX_VALUE\<close> the result is 0; otherwise it
  is a strike of the list, no strike has a smaller computed loss, and every lower
  strike has a larger computed loss (or \<open>NaN\<close>). When the strikes are integers of
  magnitude up to \<open>2^52\<close>, the open interests non-negative integers and the writer loss
  at most \<open>2^53\<close> at every strike, the computed loss is the writer loss (calls of the
  strikes below, puts of the strikes above), so the result is a strike of minimal
  writer loss, and the lowest of these.
\<close>

theorem calculateMaxPain_minimises_computed_loss:
  "calculateMaxPain [] = 0 \<and>
   AnalysisResult.maxPain (analyzeOptionChain data u) = calculateMaxPain (filter bothLegs data) \<and>
   (data \<noteq> [] \<and> doubleRecords data \<and>
    (\<forall>E\<in>set (map StrikeRecord.strikePrice data). \<not> flt (totalLossAt data E) (Fin MAX_VALUE))
      \<longrightarrow> calculateMaxPain data = 0) \<and>
   (data \<noteq> [] \<and> doubleRecords data \<and>
    (\<exists>E\<in>set (map StrikeRecord.strikePrice data). flt (totalLossAt data E) (Fin MAX_VALUE))
      \<longrightarrow> calculateMaxPain data \<in> set (map StrikeRecord.strikePrice data) \<and>
          (\<forall>E\<in>set (map StrikeRecord.strikePrice data).
             \<not> flt (totalLossAt data E) (totalLossAt data (calculateMaxPain data)) \<and>
             (E < calculateMaxPain data \<longrightarrow>
                totalLossAt data E = NaN \<or>
                flt (totalLossAt data (calculateMaxPain data)) (totalLossAt data E)))) \<and>
   (data \<noteq> [] \<and> exactRange data
      \<longrightarrow> (\<forall>E\<in>set (map StrikeRecord.strikePrice data).
             totalLossAt data E = Fin (writerLoss data E)) \<and>
          calculateMaxPain data \<in> set (map StrikeRecord.strikePrice data) \<and>
          (\<forall>E\<in>set (map StrikeRecord.strikePrice data).
             writerLoss data (calculateMaxPain data) \<le> writerLoss data E \<and>
             (writerLoss data E = writerLoss data (calculateMaxPain data)
                \<longrightarrow> calculateMaxPain data \<le> E)))"
proof (intro conjI impI)
  show "calculateMaxPain [] = 0"
    by (simp add: calculateMaxPain_def)
next
  show "AnalysisResult.maxPain (analyzeOptionChain data u) = calculateMaxPain (filter bothLegs data)"
    by (simp add: analyzeOptionChain_def Let_def)
next
  assume "data \<noteq> [] \<and> doubleRecords data \<and>
    (\<forall>E\<in>set (map StrikeRecord.strikePrice data). \<not> flt (totalLossAt data E) (Fin MAX_VALUE))"
  then show "calculateMaxPain data = 0"
    by (intro calculateMaxPain_none) blast+
next
  assume h: "data \<noteq> [] \<and> doubleRecords data \<and>
    (\<exists>E\<in>set (map StrikeRecord.strikePrice data). flt (totalLossAt data E) (Fin MAX_VALUE))"
  then have ne: "data \<noteq> []"
    and fin: "\<exists>E\<in>set (map StrikeRecord.strikePrice data). flt (totalLossAt data E) (Fin MAX_VALUE)"
    by blast+
  from calculateMaxPain_first_min(1) [OF ne fin]
  show "calculateMaxPain data \<in> set (map StrikeRecord.strikePrice data)" .
  from calculateMaxPain_first_min(3,4) [OF ne fin]
  show "\<forall>E\<in>set (map StrikeRecord.strikePrice data).
             \<not> flt (totalLossAt data E) (totalLossAt data (calculateMaxPain data)) \<and>
             (E < calculateMaxPain data \<longrightarrow>
                totalLossAt data E = NaN \<or>
                flt (totalLossAt data (calculateMaxPain data)) (totalLossAt data E))"
    by blast
next
  assume h: "data \<noteq> [] \<and> exactRange data"
  then have ne: "data \<noteq> []" and ex: "exactRange data"
    by blast+
  from ex show "\<forall>E\<in>set (map StrikeRecord.strikePrice data).
             totalLossAt data E = Fin (writerLoss data E)"
    by (blast intro: totalLossAt_exact)
  from calculateMaxPain_exact(1) [OF ne ex]
  show "calculateMaxPain data \<in> set (map StrikeRecord.strikePrice data)" .
  from calculateMaxPain_exact(2) [OF ne ex]
  show "\<forall>E\<in>set (map StrikeRecord.strikePrice data).
             writerLoss data (calculateMaxPain data) \<le> writerLoss data E \<and>
             (writerLoss data E = writerLoss data (calculateMaxPain data)
                \<longrightarrow> calculateMaxPain data \<le> E)" .
qed

lemma sample_writerLoss:
  "writerLoss sampleChain 17900 = 150000" "writerLoss sampleChain 18000 = 100000"
  by (simp_all add: writerLoss_def sampleChain_def sampleStrike_def sampleLeg_def mkLeg_def legOI_def)

lemma exactRange_sampleChain: "exactRange sampleChain"
proof -
  have "\<forall>r\<in>set sampleChain. safeRecord r"
    by (simp add: sampleChain_def safeRecord_def sample_legs)
  moreover have "set (map StrikeRecord.strikePrice sampleChain) = {17900, 18000}"
    by (simp add: sampleChain_def sample_legs)
  then have "\<forall>E\<in>set (map StrikeRecord.strikePrice sampleChain). writerLoss sampleChain E \<le> 2 ^ 53"
    by (simp only: ball_simps sample_writerLoss) simp
  ultimately show ?thesis
    unfolding exactRange_def by blast
qed

theorem calculateMaxPain_minimises_computed_loss_witness:
  "sampleChain \<noteq> [] \<and> exactRange sampleChain \<and>
   totalLossAt sampleChain 17900 = Fin 150000 \<and>
   totalLossAt sampleChain 18000 = Fin 100000 \<and>
   calculateMaxPain sampleChain = 18000 \<and>
   doubleRecords sampleChain \<and>
   flt (totalLossAt sampleChain 18000) (Fin MAX_VALUE) \<and>
   \<not> flt (totalLossAt sampleChain 17900) (totalLossAt sampleChain (calculateMaxPain sampleChain)) \<and>
   sampleOverflow \<noteq> [] \<and> doubleRecords sampleOverflow \<and>
   map (\<lambda>E. flt (totalLossAt sampleOverflow E) (Fin MAX_VALUE))
     (map StrikeRecord.strikePrice sampleOverflow) = [False, False] \<and>
   calculateMaxPain sampleOverflow = 0"
proof -
  have ne: "sampleChain \<noteq> []"
    by (simp add: sampleChain_def)
  have strikes: "set (map StrikeRecord.strikePrice sampleChain) = {17900, 18000}"
    by (simp add: sampleChain_def sampleStrike_def)
  note inst = calculateMaxPain_minimises_computed_loss [of sampleChain 17980]
  from inst ne exactRange_sampleChain
  have loss: "\<forall>E\<in>set (map StrikeRecord.strikePrice sampleChain).
             totalLossAt sampleChain E = Fin (writerLoss sampleChain E)"
    and "calculateMaxPain sampleChain \<in> set (map StrikeRecord.strikePrice sampleChain)"
    and "\<forall>E\<in>set (map StrikeRecord.strikePrice sampleChain).
           writerLoss sampleChain (calculateMaxPain sampleChain) \<le> writerLoss sampleChain E"
    by blast+
  then have "calculateMaxPain sampleChain \<in> {17900, 18000}"
    and "writerLoss sampleChain (calculateMaxPain sampleChain) \<le> 100000"
    unfolding strikes by (simp_all add: sample_writerLoss)
  then have mp: "calculateMaxPain sampleChain = 18000"
    by (auto simp: sample_writerLoss)
  from loss have l: "totalLossAt sampleChain 17900 = Fin 150000"
    "totalLossAt sampleChain 18000 = Fin 100000"
    unfolding strikes by (simp_all add: sample_writerLoss)
  have dbl: "doubleRecords sampleChain"
    by (simp add: doubleRecords_def sampleChain_def sample_legs isDouble_Ints)
  have below: "flt (totalLossAt sampleChain 18000) (Fin MAX_VALUE)"
    by (simp add: l MAX_VALUE_def)
  have "18000 \<in> set (map StrikeRecord.strikePrice sampleChain)"
    and in179: "17900 \<in> set (map StrikeRecord.strikePrice sampleChain)"
    unfolding strikes by simp_all
  with below have "\<exists>E\<in>set (map StrikeRecord.strikePrice sampleChain).
      flt (totalLossAt sampleChain E) (Fin MAX_VALUE)"
    by blast
  with inst ne dbl have "\<forall>E\<in>set (map StrikeRecord.strikePrice sampleChain).
      \<not> flt (totalLossAt sampleChain E) (totalLossAt sampleChain (calculateMaxPain sampleChain))"
    by blast
  with in179
  have nless: "\<not> flt (totalLossAt sampleChain 17900)
      (totalLossAt sampleChain (calculateMaxPain sampleChain))"
    by blast
  have ne2: "sampleOverflow \<noteq> []"
    by (simp add: sampleOverflow_def)
  have sm: "map StrikeRecord.strikePrice sampleOverflow = [1, 3]"
    by (simp add: sampleOverflow_def sample_legs)
  have none: "map (\<lambda>E. flt (totalLossAt sampleOverflow E) (Fin MAX_VALUE))
     (map StrikeRecord.strikePrice sampleOverflow) = [False, False]"
    unfolding sm by (simp add: sampleOverflow_losses)
  have "\<forall>E\<in>set (map StrikeRecord.strikePrice sampleOverflow).
      \<not> flt (totalLossAt sampleOverflow E) (Fin MAX_VALUE)"
    unfolding sm by (simp add: sampleOverflow_losses)
  with calculateMaxPain_minimises_computed_loss [of sampleOverflow 0] ne2 doubleRecords_samples(3)
  have "calculateMaxPain sampleOverflow = 0"
    by blast
  with ne exactRange_sampleChain l mp dbl below nless ne2 doubleRecords_samples(3) none
  show ?thesis
    by (intro conjI)
qed

subsection \<open>The totals of analyzeOptionChain\<close>

lemma foldl_accumulate_totals:
  "totalCallOI (foldl accumulate t xs) = totalCallOI t + (\<Sum>r\<leftarrow>xs. callOIOf r)"
  "totalPutOI (foldl accumulate t xs) = totalPutOI t + (\<Sum>r\<leftarrow>xs. putOIOf r)"
  "totalCallChangeOI (foldl accumulate t xs) =
     totalCallChangeOI t + (\<Sum>r\<leftarrow>xs. legChangeOI (StrikeRecord.CE r))"
  "totalPutChangeOI (foldl accumulate t xs) =
     totalPutChangeOI t + (\<Sum>r\<leftarrow>xs. legChangeOI (StrikeRecord.PE r))"
  by (induction xs arbitrary: t)
    (simp_all add: accumulate_def Let_def callOIOf_def putOIOf_def)

lemma analyze_fields:
  "callOI (analyzeOptionChain data u) = (\<Sum>r\<leftarrow>filter bothLegs data. callOIOf r)"
  "putOI (analyzeOptionChain data u) = (\<Sum>r\<leftarrow>filter bothLegs data. putOIOf r)"
  "callChangeOI (analyzeOptionChain data u) =
     (\<Sum>r\<leftarrow>filter bothLegs data. legChangeOI (StrikeRecord.CE r))"
  "putChangeOI (analyzeOptionChain data u) =
     (\<Sum>r\<leftarrow>filter bothLegs data. legChangeOI (StrikeRecord.PE r))"
  by (simp_all add: analyzeOptionChain_def Let_def foldl_accumulate_totals initTotals_def)

lemma analyze_pcr:
  "AnalysisResult.pcr (analyzeOptionChain data u) =
     (if callOI (analyzeOptionChain data u) = 0 then 0
      else toFixed2 (roundFin (putOI (analyzeOptionChain data u) /
                               callOI (analyzeOptionChain data u))))"
  by (simp add: analyzeOptionChain_def Let_def)


lemma bothLegs_eq: "bothLegs = (\<lambda>d. \<not> (StrikeRecord.CE d = None \<or> StrikeRecord.PE d = None))"
  by (auto simp: bothLegs_def fun_eq_iff)

subsection \<open>The rounding of the PCR\<close>

lemma toFixed2_eqI:
  assumes "0 \<le> x" "x < 10 ^ 21"
    and "of_int n - 1 / 2 \<le> 100 * x" "100 * x < of_int n + 1 / 2"
  shows "toFixed2 x = roundFin (of_int n / 100)"
proof -
  have "\<lfloor>x * 100 + 1 / 2\<rfloor> = n"
    using assms(3,4) by (intro floor_unique) simp_all
  with assms(1,2) show ?thesis
    by (simp add: toFixed2_def)
qed

lemma roundFin_samples:
  "x = 1 \<Longrightarrow> roundFin x = 1"
  "x = 3 / 2 \<Longrightarrow> roundFin x = 3 / 2"
  "x = 4 / 5 \<Longrightarrow> roundFin x = 3602879701896397 / 4503599627370496"
  "x = 201 / 200 \<Longrightarrow> roundFin x = 1131529406376837 / 1125899906842624"
  "x = 595000000000072 / 1000000000000121 \<Longrightarrow> roundFin x = 2679641778285445 / 4503599627370496"
  "x = 59 / 100 \<Longrightarrow> roundFin x = 5314247560297185 / 9007199254740992"
proof -
  show "x = 1 \<Longrightarrow> roundFin x = 1"
    by (rule roundFin_value [where v = 1 and k = 0 and m = "2 ^ 52"]) simp_all
  show "x = 3 / 2 \<Longrightarrow> roundFin x = 3 / 2"
    by (rule roundFin_value [where v = "3 / 2" and k = 0 and m = "3 * 2 ^ 51"]) simp_all
  show "x = 4 / 5 \<Longrightarrow> roundFin x = 3602879701896397 / 4503599627370496"
    by (rule roundFin_value [where v = "4 / 5" and k = "- 1" and m = 7205759403792794]) simp_all
  show "x = 201 / 200 \<Longrightarrow> roundFin x = 1131529406376837 / 1125899906842624"
    by (rule roundFin_value [where v = "201 / 200" and k = 0 and m = 4526117625507348]) simp_all
  show "x = 595000000000072 / 1000000000000121
          \<Longrightarrow> roundFin x = 2679641778285445 / 4503599627370496"
    by (rule roundFin_value [where v = "595000000000072 / 1000000000000121" and k = "- 1" and m = 5359283556570890])
      simp_all
  show "x = 59 / 100 \<Longrightarrow> roundFin x = 5314247560297185 / 9007199254740992"
    by (rule roundFin_value [where v = "59 / 100" and k = "- 1" and m = 5314247560297185]) simp_all
qed

lemma toFixed2_samples:
  "x = 1 \<Longrightarrow> toFixed2 x = 1"
  "x = 3 / 2 \<Longrightarrow> toFixed2 x = 3 / 2"
  "x = 3602879701896397 / 4503599627370496
     \<Longrightarrow> toFixed2 x = 3602879701896397 / 4503599627370496"
  "x = 1131529406376837 / 1125899906842624 \<Longrightarrow> toFixed2 x = 1"
  "x = 2679641778285445 / 4503599627370496
     \<Longrightarrow> toFixed2 x = 5314247560297185 / 9007199254740992"
proof -
  show "x = 1 \<Longrightarrow> toFixed2 x = 1"
    using toFixed2_eqI [of x 100] by (simp add: roundFin_samples)
  show "x = 3 / 2 \<Longrightarrow> toFixed2 x = 3 / 2"
    using toFixed2_eqI [of x 150] by (simp add: roundFin_samples)
  show "x = 3602879701896397 / 4503599627370496
          \<Longrightarrow> toFixed2 x = 3602879701896397 / 4503599627370496"
    using toFixed2_eqI [of x 80] by (simp add: roundFin_samples)
  show "x = 1131529406376837 / 1125899906842624 \<Longrightarrow> toFixed2 x = 1"
    using toFixed2_eqI [of x 100] by (simp add: roundFin_samples)
  show "x = 2679641778285445 / 4503599627370496
          \<Longrightarrow> toFixed2 x = 5314247560297185 / 9007199254740992"
    using toFixed2_eqI [of x 59] by (simp add: roundFin_samples)
qed

text \<open>The quotient of two safe totals and its rounding.\<close>

lemma roundFin_zero [simp]: "roundFin 0 = 0"
  by (simp add: roundFin_def)

lemma roundFin_relative_nonneg:
  assumes "x = 0 \<or> 1 / 2 ^ 1022 \<le> x"
  shows "\<bar>roundFin x - x\<bar> \<le> x / 2 ^ 53"
proof (cases "x = 0")
  case True
  then show ?thesis by simp
next
  case False
  with assms have x: "1 / 2 ^ 1022 \<le> x" by simp
  have "(0::rat) < 1 / 2 ^ 1022" by simp
  with x have "0 < x" by linarith
  then have "\<bar>x\<bar> = x" by simp
  with roundFin_relative [of x] x show ?thesis by simp
qed

lemma pcr_rounding:
  fixes P C :: rat
  assumes P: "P \<in> \<int>" "0 \<le> P" "P \<le> 2 ^ 53"
    and C: "C \<in> \<int>" "0 < C" "C \<le> 2 ^ 53"
  shows "\<bar>roundFin (P / C) - P / C\<bar> \<le> (P / C) / 2 ^ 53"
    and "\<exists>n::int. of_int n - 1 / 2 \<le> 100 * roundFin (P / C) \<and>
           100 * roundFin (P / C) < of_int n + 1 / 2 \<and>
           toFixed2 (roundFin (P / C)) = roundFin (of_int n / 100) \<and>
           \<bar>roundFin (of_int n / 100) - of_int n / 100\<bar> \<le> (of_int n / 100) / 2 ^ 53"
    and "\<bar>toFixed2 (roundFin (P / C)) - P / C\<bar> \<le> 1 / 200 + (3 * (P / C) + 1 / 200) / 2 ^ 53"
proof -
  define x where "x = P / C"
  define q where "q = roundFin x"
  from C obtain c :: int where c: "C = of_int c"
    by (auto elim: Ints_cases)
  with C(2) have "0 < c" by simp
  then have "1 \<le> c" by simp
  then have "(of_int 1 :: rat) \<le> of_int c" by (simp only: of_int_le_iff)
  with c have C1: "1 \<le> C" by simp
  have x0: "0 \<le> x"
    using P(2) C(2) by (simp add: x_def)
  have xle: "x \<le> 2 ^ 53"
  proof -
    have "x \<le> P"
      unfolding x_def using P(2) C1 C(2) by (simp add: divide_le_eq mult_le_cancel_left1)
    with P(3) show ?thesis by linarith
  qed
  have xrange: "x = 0 \<or> 1 / 2 ^ 1022 \<le> x"
  proof (cases "P = 0")
    case True
    then show ?thesis by (simp add: x_def)
  next
    case False
    from P(1) obtain p :: int where p: "P = of_int p"
      by (auto elim: Ints_cases)
    with P(2) False have "0 < p" by simp
    then have "1 \<le> p" by simp
    then have "(of_int 1 :: rat) \<le> of_int p" by (simp only: of_int_le_iff)
    with p have "1 \<le> P" by simp
    then have "1 / 2 ^ 53 \<le> P / C"
      using C(2,3) by (intro frac_le) simp_all
    moreover have "(1::rat) / 2 ^ 1022 \<le> 1 / 2 ^ 53"
      by (intro divide_left_mono power_increasing) simp_all
    ultimately show ?thesis
      unfolding x_def by linarith
  qed
  from roundFin_relative_nonneg [OF xrange]
  have qerr: "\<bar>q - x\<bar> \<le> x / 2 ^ 53"
    by (simp add: q_def)
  then show "\<bar>roundFin (P / C) - P / C\<bar> \<le> (P / C) / 2 ^ 53"
    by (simp add: q_def x_def)
  have "x / 2 ^ 53 \<le> x"
    using x0 by (simp add: divide_le_eq mult_le_cancel_left1)
  with qerr x0 have q0: "0 \<le> q" and qx: "q \<le> x + x / 2 ^ 53"
    by linarith+
  from xle have "x / 2 ^ 53 \<le> 1"
    by (simp add: divide_le_eq)
  with qx xle have "q \<le> 2 ^ 53 + 1" by linarith
  then have qbig: "q < 10 ^ 21" by simp
  define n where "n = \<lfloor>100 * q + 1 / 2\<rfloor>"
  have nb: "of_int n - 1 / 2 \<le> 100 * q" "100 * q < of_int n + 1 / 2"
    unfolding n_def by linarith+
  from toFixed2_eqI [OF q0 qbig nb] have tf: "toFixed2 q = roundFin (of_int n / 100)" .
  have "0 \<le> n"
    unfolding n_def using q0 by (simp add: zero_le_floor)
  have nrange: "of_int n / 100 = (0::rat) \<or> 1 / 2 ^ 1022 \<le> (of_int n / 100 :: rat)"
  proof (cases "n = 0")
    case True
    then show ?thesis by simp
  next
    case False
    with \<open>0 \<le> n\<close> have "1 \<le> n" by simp
    then have "(of_int 1 :: rat) \<le> of_int n" by (simp only: of_int_le_iff)
    then have "(1::rat) / 100 \<le> of_int n / 100" by simp
    moreover have "(1::rat) / 2 ^ 1022 \<le> 1 / 100"
      by simp
    ultimately show ?thesis by linarith
  qed
  from roundFin_relative_nonneg [OF nrange]
  have nerr: "\<bar>roundFin (of_int n / 100) - of_int n / 100\<bar> \<le> (of_int n / 100) / 2 ^ 53" .
  from nb tf nerr
  show "\<exists>n::int. of_int n - 1 / 2 \<le> 100 * roundFin (P / C) \<and>
           100 * roundFin (P / C) < of_int n + 1 / 2 \<and>
           toFixed2 (roundFin (P / C)) = roundFin (of_int n / 100) \<and>
           \<bar>roundFin (of_int n / 100) - of_int n / 100\<bar> \<le> (of_int n / 100) / 2 ^ 53"
    unfolding q_def x_def by blast
  define m :: rat where "m = of_int n / 100"
  have "m - q \<le> 1 / 200" "q - m \<le> 1 / 200"
    unfolding m_def using nb by linarith+
  then have mq: "\<bar>m - q\<bar> \<le> 1 / 200"
    by linarith
  then have "m \<le> q + 1 / 200" by linarith
  with qx have "m \<le> x + x / 2 ^ 53 + 1 / 200" by linarith
  then have "m / 2 ^ 53 \<le> (x + x / 2 ^ 53 + 1 / 200) / 2 ^ 53"
    by (simp add: divide_right_mono)
  also have "\<dots> \<le> (2 * x + 1 / 200) / 2 ^ 53"
    using \<open>x / 2 ^ 53 \<le> x\<close> by (intro divide_right_mono) simp_all
  finally have mbound: "m / 2 ^ 53 \<le> (2 * x + 1 / 200) / 2 ^ 53" .
  from nerr have "\<bar>toFixed2 q - m\<bar> \<le> m / 2 ^ 53"
    by (simp add: tf m_def)
  with mq qerr mbound
  have "\<bar>toFixed2 q - x\<bar> \<le> 1 / 200 + (2 * x + 1 / 200) / 2 ^ 53 + x / 2 ^ 53"
    by linarith
  also have "\<dots> = 1 / 200 + (3 * x + 1 / 200) / 2 ^ 53"
    by (simp add: field_simps)
  finally show "\<bar>toFixed2 (roundFin (P / C)) - P / C\<bar>
      \<le> 1 / 200 + (3 * (P / C) + 1 / 200) / 2 ^ 53"
    by (simp add: q_def x_def)
qed

lemma sum_list_Ints_nonneg:
  fixes f :: "'a \<Rightarrow> rat"
  assumes "\<forall>r\<in>set xs. f r \<in> \<int> \<and> 0 \<le> f r"
  shows "(\<Sum>r\<leftarrow>xs. f r) \<in> \<int> \<and> 0 \<le> (\<Sum>r\<leftarrow>xs. f r)"
  using assms by (induction xs) auto

lemma analyze_pcr_sums:
  "AnalysisResult.pcr (analyzeOptionChain data u) =
      (if (\<Sum>r\<leftarrow>filter bothLegs data. legOI (StrikeRecord.CE r)) = 0 then 0
       else toFixed2 (roundFin ((\<Sum>r\<leftarrow>filter bothLegs data. legOI (StrikeRecord.PE r)) /
                                (\<Sum>r\<leftarrow>filter bothLegs data. legOI (StrikeRecord.CE r)))))"
  unfolding analyze_pcr analyze_fields callOIOf_def putOIOf_def ..

lemma sample_pcr:
  "AnalysisResult.pcr (analyzeOptionChain [sampleStrike s c p] u) =
     (if c = 0 then 0 else toFixed2 (roundFin (p / c)))"
  unfolding analyze_pcr_sums by (simp add: sample_legs)

text \<open>
  C5, as claimed, at two snapshots with one strike, whose open interests are integers
  far below \<open>2^53\<close>. With put open interest 201 and call
  open interest 200 the quotient is \<open>1.005\<close>, half way between two hundredths; the
  double of the quotient lies below \<open>1.005\<close> and the code returns 1. With
  595000000000072 over 1000000000000121 the quotient lies above \<open>0.595\<close>, so the
  hundredth nearest to it is \<open>0.6\<close>; the double of the quotient lies below \<open>0.595\<close> and
  the code returns the double \<open>0.59\<close>, more than half a hundredth away from the quotient.
\<close>

theorem pcr_not_nearest_hundredth_counterexample:
  "safeTotals sampleHalfway \<and> safeTotals sampleAbove \<and>
   AnalysisResult.pcr (analyzeOptionChain sampleHalfway 22000) = 1 \<and>
   (\<Sum>r\<leftarrow>filter bothLegs sampleHalfway. legOI (StrikeRecord.PE r)) /
     (\<Sum>r\<leftarrow>filter bothLegs sampleHalfway. legOI (StrikeRecord.CE r)) = 1 + 1 / 200 \<and>
   AnalysisResult.pcr (analyzeOptionChain sampleAbove 22000)
     = 5314247560297185 / 9007199254740992 \<and>
   1 / 200 < \<bar>AnalysisResult.pcr (analyzeOptionChain sampleAbove 22000)
               - (\<Sum>r\<leftarrow>filter bothLegs sampleAbove. legOI (StrikeRecord.PE r)) /
                 (\<Sum>r\<leftarrow>filter bothLegs sampleAbove. legOI (StrikeRecord.CE r))\<bar> \<and>
   \<bar>6 / 10 - (\<Sum>r\<leftarrow>filter bothLegs sampleAbove. legOI (StrikeRecord.PE r)) /
              (\<Sum>r\<leftarrow>filter bothLegs sampleAbove. legOI (StrikeRecord.CE r))\<bar> < 1 / 200"
proof -
  have h: "AnalysisResult.pcr (analyzeOptionChain sampleHalfway 22000) = 1"
    unfolding sampleHalfway_def sample_pcr by (simp add: roundFin_samples toFixed2_samples)
  have a: "AnalysisResult.pcr (analyzeOptionChain sampleAbove 22000)
     = 5314247560297185 / 9007199254740992"
    unfolding sampleAbove_def sample_pcr by (simp add: roundFin_samples toFixed2_samples)
  have sums: "(\<Sum>r\<leftarrow>filter bothLegs sampleHalfway. legOI (StrikeRecord.PE r)) = 201"
    "(\<Sum>r\<leftarrow>filter bothLegs sampleHalfway. legOI (StrikeRecord.CE r)) = 200"
    "(\<Sum>r\<leftarrow>filter bothLegs sampleAbove. legOI (StrikeRecord.PE r)) = 595000000000072"
    "(\<Sum>r\<leftarrow>filter bothLegs sampleAbove. legOI (StrikeRecord.CE r)) = 1000000000000121"
    by (simp_all add: sampleHalfway_def sampleAbove_def sample_legs)
  have "safeTotals sampleHalfway" "safeTotals sampleAbove"
    unfolding safeTotals_def sums
    by (simp_all add: sampleHalfway_def sampleAbove_def sample_legs)
  then show ?thesis
    unfolding h a sums by simp
qed

text \<open>
  C5, amended. When the open interests of the records with both legs are non-negative
  integers with sums of at most \<open>2^53\<close>: PCR(OI) is 0 when the call sum is 0, whatever
  the put sum; otherwise it is the double nearest to \<open>n / 100\<close>, where \<open>n\<close> is the
  integer nearest to 100 times the double of the quotient put sum over call sum (the
  larger one on a tie). Each of the two roundings to a double is off by at most
  \<open>2^-53\<close> of the value rounded, so PCR(OI) is within
  \<open>1/200 + (3 * quotient + 1/200) / 2^53\<close> of the quotient. The totals 1200000 and
  1500000 give the double nearest to \<open>0.8\<close>.
\<close>

theorem pcr_is_double_of_rounded_quotient:
  "(safeTotals data \<and> (\<Sum>r\<leftarrow>filter bothLegs data. legOI (StrikeRecord.CE r)) = 0
      \<longrightarrow> AnalysisResult.pcr (analyzeOptionChain data u) = 0) \<and>
   (safeTotals data \<and> (\<Sum>r\<leftarrow>filter bothLegs data. legOI (StrikeRecord.CE r)) \<noteq> 0
      \<longrightarrow> (\<exists>n::int.
             of_int n - 1 / 2
               \<le> 100 * roundFin ((\<Sum>r\<leftarrow>filter bothLegs data. legOI (StrikeRecord.PE r)) /
                                  (\<Sum>r\<leftarrow>filter bothLegs data. legOI (StrikeRecord.CE r))) \<and>
             100 * roundFin ((\<Sum>r\<leftarrow>filter bothLegs data. legOI (StrikeRecord.PE r)) /
                             (\<Sum>r\<leftarrow>filter bothLegs data. legOI (StrikeRecord.CE r)))
               < of_int n + 1 / 2 \<and>
             AnalysisResult.pcr (analyzeOptionChain data u) = roundFin (of_int n / 100) \<and>
             \<bar>roundFin (of_int n / 100) - of_int n / 100\<bar> \<le> (of_int n / 100) / 2 ^ 53) \<and>
          \<bar>roundFin ((\<Sum>r\<leftarrow>filter bothLegs data. legOI (StrikeRecord.PE r)) /
                     (\<Sum>r\<leftarrow>filter bothLegs data. legOI (StrikeRecord.CE r)))
            - (\<Sum>r\<leftarrow>filter bothLegs data. legOI (StrikeRecord.PE r)) /
              (\<Sum>r\<leftarrow>filter bothLegs data. legOI (StrikeRecord.CE r))\<bar>
            \<le> ((\<Sum>r\<leftarrow>filter bothLegs data. legOI (StrikeRecord.PE r)) /
                (\<Sum>r\<leftarrow>filter bothLegs data. legOI (StrikeRecord.CE r))) / 2 ^ 53 \<and>
          \<bar>AnalysisResult.pcr (analyzeOptionChain data u)
            - (\<Sum>r\<leftarrow>filter bothLegs data. legOI (StrikeRecord.PE r)) /
              (\<Sum>r\<leftarrow>filter bothLegs data. legOI (StrikeRecord.CE r))\<bar>
            \<le> 1 / 200 +
               (3 * ((\<Sum>r\<leftarrow>filter bothLegs data. legOI (StrikeRecord.PE r)) /
                     (\<Sum>r\<leftarrow>filter bothLegs data. legOI (StrikeRecord.CE r))) + 1 / 200) / 2 ^ 53) \<and>
   (safeTotals data \<and>
    (\<Sum>r\<leftarrow>filter bothLegs data. legOI (StrikeRecord.PE r)) = 1200000 \<and>
    (\<Sum>r\<leftarrow>filter bothLegs data. legOI (StrikeRecord.CE r)) = 1500000
      \<longrightarrow> AnalysisResult.pcr (analyzeOptionChain data u) = roundFin (8 / 10) \<and>
          roundFin (8 / 10) = 3602879701896397 / 4503599627370496)"
proof (intro conjI impI)
  assume "safeTotals data \<and> (\<Sum>r\<leftarrow>filter bothLegs data. legOI (StrikeRecord.CE r)) = 0"
  then show "AnalysisResult.pcr (analyzeOptionChain data u) = 0"
    by (simp add: analyze_pcr_sums)
next
  let ?P = "\<Sum>r\<leftarrow>filter bothLegs data. legOI (StrikeRecord.PE r)"
  let ?C = "\<Sum>r\<leftarrow>filter bothLegs data. legOI (StrikeRecord.CE r)"
  assume h: "safeTotals data \<and> ?C \<noteq> 0"
  then have safe: "safeTotals data" and C0: "?C \<noteq> 0"
    by blast+
  from safe have "\<forall>r\<in>set (filter bothLegs data).
      legOI (StrikeRecord.PE r) \<in> \<int> \<and> 0 \<le> legOI (StrikeRecord.PE r)"
    and "\<forall>r\<in>set (filter bothLegs data).
      legOI (StrikeRecord.CE r) \<in> \<int> \<and> 0 \<le> legOI (StrikeRecord.CE r)"
    unfolding safeTotals_def by blast+
  from sum_list_Ints_nonneg [OF this(1)] sum_list_Ints_nonneg [OF this(2)] safe C0
  have P: "?P \<in> \<int>" "0 \<le> ?P" "?P \<le> 2 ^ 53" and C: "?C \<in> \<int>" "0 < ?C" "?C \<le> 2 ^ 53"
    unfolding safeTotals_def by simp_all
  have pcr: "AnalysisResult.pcr (analyzeOptionChain data u) = toFixed2 (roundFin (?P / ?C))"
    using C0 by (simp add: analyze_pcr_sums)
  from pcr_rounding(2) [OF P C]
  show "\<exists>n::int. of_int n - 1 / 2 \<le> 100 * roundFin (?P / ?C) \<and>
             100 * roundFin (?P / ?C) < of_int n + 1 / 2 \<and>
             AnalysisResult.pcr (analyzeOptionChain data u) = roundFin (of_int n / 100) \<and>
             \<bar>roundFin (of_int n / 100) - of_int n / 100\<bar> \<le> (of_int n / 100) / 2 ^ 53"
    unfolding pcr .
  from pcr_rounding(1) [OF P C]
  show "\<bar>roundFin (?P / ?C) - ?P / ?C\<bar> \<le> (?P / ?C) / 2 ^ 53" .
  from pcr_rounding(3) [OF P C]
  show "\<bar>AnalysisResult.pcr (analyzeOptionChain data u) - ?P / ?C\<bar>
            \<le> 1 / 200 + (3 * (?P / ?C) + 1 / 200) / 2 ^ 53"
    unfolding pcr .
next
  assume "safeTotals data \<and>
    (\<Sum>r\<leftarrow>filter bothLegs data. legOI (StrikeRecord.PE r)) = 1200000 \<and>
    (\<Sum>r\<leftarrow>filter bothLegs data. legOI (StrikeRecord.CE r)) = 1500000"
  then show "AnalysisResult.pcr (analyzeOptionChain data u) = roundFin (8 / 10)"
    by (simp add: analyze_pcr_sums roundFin_samples toFixed2_samples)
next
  show "roundFin (8 / 10) = 3602879701896397 / 4503599627370496"
    by (simp add: roundFin_samples)
qed

theorem pcr_is_double_of_rounded_quotient_witness:
  "safeTotals sampleTotals \<and>
   (\<Sum>r\<leftarrow>filter bothLegs sampleTotals. legOI (StrikeRecord.PE r)) = 1200000 \<and>
   (\<Sum>r\<leftarrow>filter bothLegs sampleTotals. legOI (StrikeRecord.CE r)) = 1500000 \<and>
   AnalysisResult.pcr (analyzeOptionChain sampleTotals 22000)
     = 3602879701896397 / 4503599627370496 \<and>
   \<bar>AnalysisResult.pcr (analyzeOptionChain sampleTotals 22000) - 8 / 10\<bar>
     \<le> 1 / 200 + (3 * (8 / 10) + 1 / 200) / 2 ^ 53 \<and>
   safeTotals sampleNoPuts \<and>
   (\<Sum>r\<leftarrow>filter bothLegs [sampleStrike 22000 0 1500]. legOI (StrikeRecord.CE r)) = 0 \<and>
   AnalysisResult.pcr (analyzeOptionChain [sampleStrike 22000 0 1500] 22000) = 0"
proof -
  have p: "(\<Sum>r\<leftarrow>filter bothLegs sampleTotals. legOI (StrikeRecord.PE r)) = 1200000"
    and c: "(\<Sum>r\<leftarrow>filter bothLegs sampleTotals. legOI (StrikeRecord.CE r)) = 1500000"
    by (simp_all add: sampleTotals_def sample_legs)
  have safe: "safeTotals sampleTotals"
    unfolding safeTotals_def p c by (simp add: sampleTotals_def sample_legs)
  note inst = pcr_is_double_of_rounded_quotient [of sampleTotals 22000]
  from inst safe p c
  have v: "AnalysisResult.pcr (analyzeOptionChain sampleTotals 22000)
     = 3602879701896397 / 4503599627370496"
    by simp
  from inst safe p c
  have e: "\<bar>AnalysisResult.pcr (analyzeOptionChain sampleTotals 22000) - 1200000 / 1500000\<bar>
     \<le> 1 / 200 + (3 * (1200000 / 1500000) + 1 / 200) / 2 ^ 53"
    by simp
  have c0: "(\<Sum>r\<leftarrow>filter bothLegs [sampleStrike 22000 0 1500]. legOI (StrikeRecord.CE r)) = 0"
    by (simp add: sample_legs)
  have safe0: "safeTotals [sampleStrike 22000 0 1500]"
    unfolding safeTotals_def by (simp add: sample_legs)
  from pcr_is_double_of_rounded_quotient [of "[sampleStrike 22000 0 1500]" 22000] safe0 c0
  have z: "AnalysisResult.pcr (analyzeOptionChain [sampleStrike 22000 0 1500] 22000) = 0"
    by blast
  have safeN: "safeTotals sampleNoPuts"
    unfolding safeTotals_def by (simp add: sampleNoPuts_def sample_legs)
  from safe p c v e safeN c0 z show ?thesis
    by simp
qed





text \<open>
  C3, as stated: on the empty list PCR, Max Pain, ATM, support and resistance are 0 and
  the trend is Neutral. The trend is not Neutral: the PCR of 0 is below 0.6.
\<close>

theorem empty_chain_neutral_counterexample:
  "\<not> (AnalysisResult.pcr (analyzeOptionChain [] 22000) = 0 \<and>
      AnalysisResult.maxPain (analyzeOptionChain [] 22000) = 0 \<and>
      atmStrike (analyzeOptionChain [] 22000) = 0 \<and>
      support (analyzeOptionChain [] 22000) = 0 \<and>
      resistance (analyzeOptionChain [] 22000) = 0 \<and>
      trend (analyzeOptionChain [] 22000) = Neutral)"
  by (simp add: analyzeOptionChain_def initTotals_def classify_def)

text \<open>
  C3, amended: on the empty list, for every underlying price, PCR, Max Pain, ATM,
  support and resistance are 0 and the trend is Bearish.
\<close>

theorem empty_chain_result:
  "AnalysisResult.pcr (analyzeOptionChain [] u) = 0 \<and>
   AnalysisResult.maxPain (analyzeOptionChain [] u) = 0 \<and>
   atmStrike (analyzeOptionChain [] u) = 0 \<and>
   support (analyzeOptionChain [] u) = 0 \<and>
   resistance (analyzeOptionChain [] u) = 0 \<and>
   trend (analyzeOptionChain [] u) = Bearish"
  by (simp add: analyzeOptionChain_def initTotals_def classify_def calculateMaxPain_def)

theorem empty_chain_result_witness:
  "trend (analyzeOptionChain [] 22000) = Bearish \<and> support (analyzeOptionChain [] 22000) = 0"
  using empty_chain_result [of 22000] by simp

text \<open>
  C10. Removing every record that lacks a call leg or lacks a put leg leaves the whole
  result of \<open>analyzeOptionChain\<close> unchanged.
\<close>

theorem analyzeOptionChain_ignores_one_legged:
  "analyzeOptionChain
     (filter (\<lambda>d. \<not> (StrikeRecord.CE d = None \<or> StrikeRecord.PE d = None)) data) u =
   analyzeOptionChain data u"
  unfolding bothLegs_eq [symmetric] by (simp add: analyzeOptionChain_def)

theorem analyzeOptionChain_ignores_one_legged_witness:
  "analyzeOptionChain [sampleStrike 18000 500 1500] 17980 =
   analyzeOptionChain [samplePutOnly 17900 9000, sampleStrike 18000 500 1500] 17980"
  using analyzeOptionChain_ignores_one_legged
    [of "[samplePutOnly 17900 9000, sampleStrike 18000 500 1500]" 17980]
  by (simp add: samplePutOnly_def sampleStrike_def)

subsection \<open>Support and resistance\<close>

text \<open>
  The two running maxima of the \<open>forEach\<close> callback follow one scheme: a maximum
  \<open>mx\<close> and the value \<open>pick\<close> noted when the maximum was last raised.
\<close>

lemma scan_keep:
  assumes mx: "\<And>t r. mx (step t r) = (if key r > mx t then key r else mx t)"
    and pick: "\<And>t r. pick (step t r) = (if key r > mx t then val r else pick t)"
    and le: "\<forall>x\<in>set xs. key x \<le> (mx t :: number)"
  shows "mx (foldl step t xs) = mx t \<and> pick (foldl step t xs) = (pick t :: number)"
  using le
proof (induction xs arbitrary: t)
  case Nil
  show ?case by simp
next
  case (Cons x xs)
  from Cons.prems have x: "\<not> key x > mx t"
    by (simp add: not_less)
  then have "mx (step t x) = mx t" "pick (step t x) = pick t"
    by (simp_all add: mx pick)
  moreover from this Cons.prems have "\<forall>y\<in>set xs. key y \<le> mx (step t x)"
    by simp
  from Cons.IH [OF this] have "mx (foldl step (step t x) xs) = mx (step t x)"
    and "pick (foldl step (step t x) xs) = pick (step t x)"
    by simp_all
  ultimately show ?case by simp
qed

lemma scan_pick:
  assumes mx: "\<And>t r. mx (step t r) = (if key r > mx t then key r else mx t)"
    and pick: "\<And>t r. pick (step t r) = (if key r > mx t then val r else pick t)"
    and ex: "\<exists>x\<in>set xs. (mx t :: number) < key x"
  shows "\<exists>i<length xs.
           pick (foldl step t xs) = (val (xs ! i) :: number) \<and>
           (\<forall>x\<in>set xs. key x \<le> key (xs ! i)) \<and>
           (\<forall>j<i. key (xs ! j) < key (xs ! i)) \<and>
           mx t < key (xs ! i)"
  using ex
proof (induction xs arbitrary: t)
  case Nil
  then show ?case by simp
next
  case (Cons x xs)
  let ?t1 = "step t x"
  have t1: "mx t \<le> mx ?t1" "key x \<le> mx ?t1"
    by (simp_all add: mx)
  show ?case
  proof (cases "\<exists>y\<in>set xs. mx ?t1 < key y")
    case True
    from Cons.IH [OF True] obtain i where i: "i < length xs"
      and res: "pick (foldl step ?t1 xs) = val (xs ! i)"
      and mxi: "\<forall>y\<in>set xs. key y \<le> key (xs ! i)"
      and fs: "\<forall>j<i. key (xs ! j) < key (xs ! i)"
      and lt: "mx ?t1 < key (xs ! i)"
      by blast
    have "\<forall>j<Suc i. key ((x # xs) ! j) < key ((x # xs) ! Suc i)"
    proof (intro allI impI)
      fix j assume "j < Suc i"
      then show "key ((x # xs) ! j) < key ((x # xs) ! Suc i)"
        using fs lt t1 by (cases j) auto
    qed
    moreover have "\<forall>y\<in>set (x # xs). key y \<le> key ((x # xs) ! Suc i)"
      using mxi lt t1 by auto
    ultimately show ?thesis
      using i res lt t1 by (intro exI [of _ "Suc i"]) auto
  next
    case False
    then have le: "\<forall>y\<in>set xs. key y \<le> mx ?t1"
      by (auto simp: not_less)
    from scan_keep [of mx step key pick val, OF mx pick le]
    have res: "pick (foldl step ?t1 xs) = pick ?t1"
      by simp
    from Cons.prems False t1 have x: "mx t < key x"
      by (auto simp: mx split: if_splits)
    then have "pick ?t1 = val x" "mx ?t1 = key x"
      by (simp_all add: mx pick)
    with res x le show ?thesis
      by (intro exI [of _ 0]) auto
  qed
qed

lemma firstMaxStrike_nth:
  assumes "i < length xs"
    and "\<forall>x\<in>set xs. oi x \<le> oi (xs ! i)"
    and "\<forall>j<i. oi (xs ! j) < oi (xs ! i)"
  shows "firstMaxStrike oi xs = Some (StrikeRecord.strikePrice (xs ! i))"
  using assms
proof (induction xs arbitrary: i)
  case Nil
  then show ?case by simp
next
  case (Cons r rs)
  show ?case
  proof (cases i)
    case 0
    with Cons.prems show ?thesis by simp
  next
    case (Suc k)
    with Cons.prems have k: "k < length rs"
      and mx: "\<forall>x\<in>set rs. oi x \<le> oi (rs ! k)"
      and r: "oi r < oi (rs ! k)"
      by auto
    have fs: "\<forall>j<k. oi (rs ! j) < oi (rs ! k)"
    proof (intro allI impI)
      fix j assume "j < k"
      then have "Suc j < i" using Suc by simp
      with Cons.prems(3) have "oi ((r # rs) ! Suc j) < oi ((r # rs) ! i)"
        by blast
      then show "oi (rs ! j) < oi (rs ! k)"
        using Suc by simp
    qed
    from k have "rs ! k \<in> set rs"
      by (rule nth_mem)
    with r have "\<not> (\<forall>x\<in>set rs. oi x \<le> oi r)"
      by (auto simp: not_le)
    then have "firstMaxStrike oi (r # rs) = firstMaxStrike oi rs"
      by (simp only: firstMaxStrike.simps if_False)
    then show ?thesis
      using Cons.IH [OF k mx fs] Suc by simp
  qed
qed

lemma first_max_lowest:
  assumes i: "i < length xs"
    and fs: "\<forall>j<i. oi (xs ! j) < oi (xs ! i)"
    and srt: "sorted (map StrikeRecord.strikePrice xs)"
    and x: "x \<in> set xs" "\<forall>y\<in>set xs. oi y \<le> (oi x :: number)"
  shows "StrikeRecord.strikePrice (xs ! i) \<le> StrikeRecord.strikePrice x"
proof -
  from x(1) obtain k where k: "k < length xs" and xk: "xs ! k = x"
    unfolding in_set_conv_nth by blast
  from i have "xs ! i \<in> set xs"
    by (rule nth_mem)
  with x(2) have "oi (xs ! i) \<le> oi x"
    by blast
  with fs xk have "\<not> k < i"
    by (auto simp: not_less)
  then have "i \<le> k" by simp
  with srt k have "map StrikeRecord.strikePrice xs ! i \<le> map StrikeRecord.strikePrice xs ! k"
    by (intro sorted_nth_mono) simp_all
  with i k xk show ?thesis by simp
qed

lemma accumulate_put:
  "maxPutOI (accumulate t r) = (if putOIOf r > maxPutOI t then putOIOf r else maxPutOI t)"
  "supportT (accumulate t r) =
     (if putOIOf r > maxPutOI t then StrikeRecord.strikePrice r else supportT t)"
  by (simp_all add: accumulate_def Let_def putOIOf_def)

lemma accumulate_call:
  "maxCallOI (accumulate t r) = (if callOIOf r > maxCallOI t then callOIOf r else maxCallOI t)"
  "resistanceT (accumulate t r) =
     (if callOIOf r > maxCallOI t then StrikeRecord.strikePrice r else resistanceT t)"
  by (simp_all add: accumulate_def Let_def callOIOf_def)

lemma analyze_support:
  "support (analyzeOptionChain data u) = supportT (foldl accumulate initTotals (filter bothLegs data))"
  "resistance (analyzeOptionChain data u) =
     resistanceT (foldl accumulate initTotals (filter bothLegs data))"
  by (simp_all add: analyzeOptionChain_def Let_def)

lemma level_zero:
  assumes "\<forall>x\<in>set (filter bothLegs data). putOIOf x \<le> 0"
  shows "support (analyzeOptionChain data u) = 0"
proof -
  from assms have "\<forall>x\<in>set (filter bothLegs data). putOIOf x \<le> maxPutOI initTotals"
    by (simp add: initTotals_def)
  from scan_keep [of maxPutOI accumulate putOIOf supportT StrikeRecord.strikePrice,
      OF accumulate_put this]
  show ?thesis
    by (simp add: analyze_support initTotals_def)
qed

lemma level_zero_call:
  assumes "\<forall>x\<in>set (filter bothLegs data). callOIOf x \<le> 0"
  shows "resistance (analyzeOptionChain data u) = 0"
proof -
  from assms have "\<forall>x\<in>set (filter bothLegs data). callOIOf x \<le> maxCallOI initTotals"
    by (simp add: initTotals_def)
  from scan_keep [of maxCallOI accumulate callOIOf resistanceT StrikeRecord.strikePrice,
      OF accumulate_call this]
  show ?thesis
    by (simp add: analyze_support initTotals_def)
qed

lemma level_first_max:
  assumes "\<exists>x\<in>set (filter bothLegs data). 0 < putOIOf x"
  shows "firstMaxStrike putOIOf (filter bothLegs data) = Some (support (analyzeOptionChain data u))"
    and "sorted (map StrikeRecord.strikePrice data) \<Longrightarrow>
         \<forall>x\<in>set (filter bothLegs data).
           (\<forall>y\<in>set (filter bothLegs data). putOIOf y \<le> putOIOf x)
             \<longrightarrow> support (analyzeOptionChain data u) \<le> StrikeRecord.strikePrice x"
proof -
  let ?v = "filter bothLegs data"
  from assms have "\<exists>x\<in>set ?v. maxPutOI initTotals < putOIOf x"
    by (simp add: initTotals_def)
  from scan_pick [of maxPutOI accumulate putOIOf supportT StrikeRecord.strikePrice,
      OF accumulate_put this]
  obtain i where i: "i < length ?v"
    and res: "support (analyzeOptionChain data u) = StrikeRecord.strikePrice (?v ! i)"
    and mx: "\<forall>x\<in>set ?v. putOIOf x \<le> putOIOf (?v ! i)"
    and fs: "\<forall>j<i. putOIOf (?v ! j) < putOIOf (?v ! i)"
    unfolding analyze_support by blast
  from firstMaxStrike_nth [OF i mx fs] res
  show "firstMaxStrike putOIOf ?v = Some (support (analyzeOptionChain data u))"
    by simp
  assume "sorted (map StrikeRecord.strikePrice data)"
  then have srt: "sorted (map StrikeRecord.strikePrice ?v)"
    by (rule sorted_filter)
  show "\<forall>x\<in>set ?v. (\<forall>y\<in>set ?v. putOIOf y \<le> putOIOf x)
          \<longrightarrow> support (analyzeOptionChain data u) \<le> StrikeRecord.strikePrice x"
    using first_max_lowest [OF i fs srt] res by auto
qed

lemma level_first_max_call:
  assumes "\<exists>x\<in>set (filter bothLegs data). 0 < callOIOf x"
  shows "firstMaxStrike callOIOf (filter bothLegs data)
           = Some (resistance (analyzeOptionChain data u))"
    and "sorted (map StrikeRecord.strikePrice data) \<Longrightarrow>
         \<forall>x\<in>set (filter bothLegs data).
           (\<forall>y\<in>set (filter bothLegs data). callOIOf y \<le> callOIOf x)
             \<longrightarrow> resistance (analyzeOptionChain data u) \<le> StrikeRecord.strikePrice x"
proof -
  let ?v = "filter bothLegs data"
  from assms have "\<exists>x\<in>set ?v. maxCallOI initTotals < callOIOf x"
    by (simp add: initTotals_def)
  from scan_pick [of maxCallOI accumulate callOIOf resistanceT StrikeRecord.strikePrice,
      OF accumulate_call this]
  obtain i where i: "i < length ?v"
    and res: "resistance (analyzeOptionChain data u) = StrikeRecord.strikePrice (?v ! i)"
    and mx: "\<forall>x\<in>set ?v. callOIOf x \<le> callOIOf (?v ! i)"
    and fs: "\<forall>j<i. callOIOf (?v ! j) < callOIOf (?v ! i)"
    unfolding analyze_support by blast
  from firstMaxStrike_nth [OF i mx fs] res
  show "firstMaxStrike callOIOf ?v = Some (resistance (analyzeOptionChain data u))"
    by simp
  assume "sorted (map StrikeRecord.strikePrice data)"
  then have srt: "sorted (map StrikeRecord.strikePrice ?v)"
    by (rule sorted_filter)
  show "\<forall>x\<in>set ?v. (\<forall>y\<in>set ?v. callOIOf y \<le> callOIOf x)
          \<longrightarrow> resistance (analyzeOptionChain data u) \<le> StrikeRecord.strikePrice x"
    using first_max_lowest [OF i fs srt] res by auto
qed

lemma sample_eval_defs:
  "bothLegs (sampleStrike s c p)" "\<not> bothLegs (samplePutOnly s p)"
  "putOIOf (sampleStrike s c p) = p" "callOIOf (sampleStrike s c p) = c"
  "putOIOf (samplePutOnly s p) = p" "callOIOf (samplePutOnly s p) = 0"
  "StrikeRecord.strikePrice (sampleStrike s c p) = s"
  "StrikeRecord.strikePrice (samplePutOnly s p) = s"
  by (simp_all add: sampleStrike_def samplePutOnly_def sampleLeg_def mkLeg_def bothLegs_def
      legOI_def putOIOf_def callOIOf_def)

lemma sample_scenario:
  "atmStrike (analyzeOptionChain sampleChain 17980) = 18000"
  "support (analyzeOptionChain sampleChain 17980) = 18000"
  "resistance (analyzeOptionChain sampleChain 17980) = 17900"
  by (simp_all add: analyzeOptionChain_def Let_def sampleChain_def sample_eval_defs
      accumulate_put accumulate_call initTotals_def atmStep_def)


text \<open>
  C8, as stated: support is the strike with the maximum put open interest across all
  strikes, the first of them on ties. On a chain whose puts are all 0 the support is 0,
  which is no strike of the chain; and a record without a call leg is passed over even
  when its put open interest is the largest.
\<close>

theorem support_first_max_counterexample:
  "firstMaxStrike putOIOf sampleNoPuts = Some 17900 \<and>
   support (analyzeOptionChain sampleNoPuts 17980) = 0 \<and>
   firstMaxStrike putOIOf sampleOneLegged = Some 17900 \<and>
   support (analyzeOptionChain sampleOneLegged 17980) = 18000"
  by (simp add: sampleNoPuts_def sampleOneLegged_def analyze_support sample_eval_defs
      accumulate_put initTotals_def)

text \<open>
  C8, amended: over the records with both legs, in the order of the list: when some
  put open interest is positive, support is the strike of the first record whose put
  open interest is the maximum, which on a chain in ascending strike order is the lowest
  such strike; when none is positive, support is 0. Resistance is the same over the call
  open interest. For the two strikes of the scenario and the underlying 17980 the ATM
  strike is 18000, support 18000 and resistance 17900.
\<close>

theorem support_resistance_first_max:
  "((\<exists>x\<in>set (filter bothLegs data). 0 < putOIOf x) \<longrightarrow>
      firstMaxStrike putOIOf (filter bothLegs data) = Some (support (analyzeOptionChain data u)) \<and>
      (sorted (map StrikeRecord.strikePrice data) \<longrightarrow>
         (\<forall>x\<in>set (filter bothLegs data).
            (\<forall>y\<in>set (filter bothLegs data). putOIOf y \<le> putOIOf x)
              \<longrightarrow> support (analyzeOptionChain data u) \<le> StrikeRecord.strikePrice x))) \<and>
   ((\<forall>x\<in>set (filter bothLegs data). putOIOf x \<le> 0) \<longrightarrow>
      support (analyzeOptionChain data u) = 0) \<and>
   ((\<exists>x\<in>set (filter bothLegs data). 0 < callOIOf x) \<longrightarrow>
      firstMaxStrike callOIOf (filter bothLegs data)
        = Some (resistance (analyzeOptionChain data u)) \<and>
      (sorted (map StrikeRecord.strikePrice data) \<longrightarrow>
         (\<forall>x\<in>set (filter bothLegs data).
            (\<forall>y\<in>set (filter bothLegs data). callOIOf y \<le> callOIOf x)
              \<longrightarrow> resistance (analyzeOptionChain data u) \<le> StrikeRecord.strikePrice x))) \<and>
   ((\<forall>x\<in>set (filter bothLegs data). callOIOf x \<le> 0) \<longrightarrow>
      resistance (analyzeOptionChain data u) = 0) \<and>
   atmStrike (analyzeOptionChain sampleChain 17980) = 18000 \<and>
   support (analyzeOptionChain sampleChain 17980) = 18000 \<and>
   resistance (analyzeOptionChain sampleChain 17980) = 17900"
  using level_first_max [of data u] level_first_max_call [of data u]
    level_zero [of data u] level_zero_call [of data u] sample_scenario
  by (intro conjI impI) assumption+

theorem support_resistance_first_max_witness:
  "(\<exists>x\<in>set (filter bothLegs sampleChain). 0 < putOIOf x) \<and>
   (\<exists>x\<in>set (filter bothLegs sampleChain). 0 < callOIOf x) \<and>
   sorted (map StrikeRecord.strikePrice sampleChain) \<and>
   firstMaxStrike putOIOf (filter bothLegs sampleChain)
     = Some (support (analyzeOptionChain sampleChain 17980)) \<and>
   firstMaxStrike callOIOf (filter bothLegs sampleChain)
     = Some (resistance (analyzeOptionChain sampleChain 17980)) \<and>
   map putOIOf (filter bothLegs sampleNoPuts) = [0, 0] \<and>
   support (analyzeOptionChain sampleNoPuts 17980) = 0"
proof -
  have p: "\<exists>x\<in>set (filter bothLegs sampleChain). 0 < putOIOf x"
    and c: "\<exists>x\<in>set (filter bothLegs sampleChain). 0 < callOIOf x"
    and s: "sorted (map StrikeRecord.strikePrice sampleChain)"
    and z: "\<forall>x\<in>set (filter bothLegs sampleNoPuts). putOIOf x \<le> 0"
    by (simp_all add: sampleChain_def sampleNoPuts_def sample_eval_defs)
  from support_resistance_first_max [of sampleChain 17980] p c
  have "firstMaxStrike putOIOf (filter bothLegs sampleChain)
          = Some (support (analyzeOptionChain sampleChain 17980))"
    and "firstMaxStrike callOIOf (filter bothLegs sampleChain)
          = Some (resistance (analyzeOptionChain sampleChain 17980))"
    by blast+
  moreover from support_resistance_first_max [of sampleNoPuts 17980] z
  have "support (analyzeOptionChain sampleNoPuts 17980) = 0"
    by blast
  moreover have "map putOIOf (filter bothLegs sampleNoPuts) = [0, 0]"
    by (simp add: sampleNoPuts_def sample_eval_defs)
  ultimately show ?thesis
    using p c s by blast
qed

section \<open>Verification of the snapshot store\<close>

subsection \<open>The stable sort\<close>

lemma length_insertBy: "length (insertBy cmp x ys) = Suc (length ys)"
  by (induction ys) simp_all

lemma set_insertBy: "set (insertBy cmp x ys) = insert x (set ys)"
  by (induction ys) auto

lemma length_sortBy: "length (sortBy cmp xs) = length xs"
  unfolding sortBy_def by (induction xs) (simp_all add: length_insertBy)

lemma set_sortBy: "set (sortBy cmp xs) = set xs"
  unfolding sortBy_def by (induction xs) (simp_all add: set_insertBy)

text \<open>\<open>recent getTime a b\<close>: both timestamps are dates and \<open>a\<close> is not older than \<open>b\<close>.\<close>

lemma mostRecentFirst_insertBy:
  assumes parse: "\<forall>y\<in>set (x # ys). getTime (Snapshot.timestamp y) \<noteq> None"
    and srt: "mostRecentFirst getTime ys"
  shows "mostRecentFirst getTime (insertBy (byTimeDesc getTime) x ys)"
  using assms
proof (induction ys)
  case Nil
  then show ?case by (simp add: mostRecentFirst_def)
next
  case (Cons y ys)
  from Cons.prems(1) obtain tx ty where tx: "getTime (Snapshot.timestamp x) = Some tx"
    and ty: "getTime (Snapshot.timestamp y) = Some ty"
    by auto
  show ?case
  proof (cases "byTimeDesc getTime x y \<le> 0")
    case True
    with tx ty have le: "ty \<le> tx"
      by (simp add: byTimeDesc_def)
    have "\<exists>ta tb. getTime (Snapshot.timestamp x) = Some ta \<and>
            getTime (Snapshot.timestamp z) = Some tb \<and> tb \<le> ta" if "z \<in> set (y # ys)" for z
    proof (cases "z = y")
      case True
      with tx ty le show ?thesis by simp
    next
      case False
      with that have "z \<in> set ys" by simp
      with Cons.prems(2) ty obtain tz where "getTime (Snapshot.timestamp z) = Some tz" "tz \<le> ty"
        by (auto simp: mostRecentFirst_def)
      with tx le show ?thesis by auto
    qed
    with True Cons.prems(2) show ?thesis
      by (simp add: mostRecentFirst_def)
  next
    case False
    with tx ty have lt: "tx \<le> ty"
      by (simp add: byTimeDesc_def)
    from Cons.prems have "mostRecentFirst getTime (insertBy (byTimeDesc getTime) x ys)"
      by (intro Cons.IH) (simp_all add: mostRecentFirst_def)
    moreover have "\<exists>ta tb. getTime (Snapshot.timestamp y) = Some ta \<and>
            getTime (Snapshot.timestamp z) = Some tb \<and> tb \<le> ta"
      if "z \<in> set (insertBy (byTimeDesc getTime) x ys)" for z
      using that Cons.prems(2) tx ty lt
      by (auto simp: set_insertBy mostRecentFirst_def)
    ultimately show ?thesis
      using False by (simp add: mostRecentFirst_def)
  qed
qed

lemma mostRecentFirst_sortBy:
  assumes "\<forall>y\<in>set xs. getTime (Snapshot.timestamp y) \<noteq> None"
  shows "mostRecentFirst getTime (sortBy (byTimeDesc getTime) xs)"
  using assms
proof (induction xs)
  case Nil
  show ?case by (simp add: sortBy_def mostRecentFirst_def)
next
  case (Cons x xs)
  then have "mostRecentFirst getTime (sortBy (byTimeDesc getTime) xs)"
    by simp
  moreover from Cons.prems
  have "\<forall>y\<in>set (x # sortBy (byTimeDesc getTime) xs). getTime (Snapshot.timestamp y) \<noteq> None"
    by (simp add: set_sortBy)
  ultimately have "mostRecentFirst getTime
      (insertBy (byTimeDesc getTime) x (sortBy (byTimeDesc getTime) xs))"
    by (intro mostRecentFirst_insertBy)
  then show ?case
    by (simp add: sortBy_def)
qed

lemma mostRecentFirst_take: "mostRecentFirst getTime xs \<Longrightarrow> mostRecentFirst getTime (take n xs)"
  unfolding mostRecentFirst_def by (rule sorted_wrt_take)

subsection \<open>saveSnapshot\<close>

lemma stored_saveSnapshot:
  "stored (saveSnapshot getTime nowId nowIso d st) =
     take 100 (sortBy (byTimeDesc getTime) (makeSnapshot nowId nowIso d # stored st))"
  by (simp add: saveSnapshot_def stored_def Let_def)

lemma length_saveSnapshot:
  "length (stored (saveSnapshot getTime nowId nowIso d st)) = min 100 (length (stored st) + 1)"
  by (simp add: stored_saveSnapshot length_sortBy)

lemma set_saveSnapshot:
  "set (stored (saveSnapshot getTime nowId nowIso d st))
     \<subseteq> insert (makeSnapshot nowId nowIso d) (set (stored st))"
  using set_take_subset [of 100 "sortBy (byTimeDesc getTime) (makeSnapshot nowId nowIso d # stored st)"]
  by (simp add: stored_saveSnapshot set_sortBy)

lemma saveSnapshots_snoc:
  "saveSnapshots getTime (calls @ [(nowId, nowIso, d)]) st =
     saveSnapshot getTime nowId nowIso d (saveSnapshots getTime calls st)"
  by (simp add: saveSnapshots_def)

lemma length_saveSnapshots:
  "calls \<noteq> [] \<Longrightarrow>
   length (stored (saveSnapshots getTime calls st)) = min 100 (length (stored st) + length calls)"
proof (induction calls rule: rev_induct)
  case Nil
  then show ?case by simp
next
  case (snoc c calls)
  obtain nowId nowIso d where c: "c = (nowId, nowIso, d)"
    by (cases c)
  show ?case
  proof (cases "calls = []")
    case True
    then show ?thesis
      by (simp add: c saveSnapshots_def length_saveSnapshot)
  next
    case False
    with snoc.IH show ?thesis
      by (simp add: c saveSnapshots_snoc length_saveSnapshot)
  qed
qed

lemma set_saveSnapshots:
  "set (stored (saveSnapshots getTime calls st))
     \<subseteq> set (stored st) \<union> (\<lambda>(nowId, nowIso, d). makeSnapshot nowId nowIso d) ` set calls"
proof (induction calls rule: rev_induct)
  case Nil
  show ?case by (simp add: saveSnapshots_def)
next
  case (snoc c calls)
  obtain nowId nowIso d where c: "c = (nowId, nowIso, d)"
    by (cases c)
  from set_saveSnapshot [of getTime nowId nowIso d "saveSnapshots getTime calls st"] snoc.IH
  show ?case
    unfolding c saveSnapshots_snoc by auto
qed

lemma mostRecentFirst_saveSnapshots:
  assumes ne: "calls \<noteq> []"
    and old: "\<forall>s\<in>set (stored st). getTime (Snapshot.timestamp s) \<noteq> None"
    and new: "\<forall>(nowId, nowIso, d)\<in>set calls.
                getTime (Snapshot.timestamp (makeSnapshot nowId nowIso d)) \<noteq> None"
  shows "mostRecentFirst getTime (stored (saveSnapshots getTime calls st))"
proof -
  from ne obtain cs c where calls: "calls = cs @ [c]"
    by (cases calls rule: rev_cases) auto
  obtain nowId nowIso d where c: "c = (nowId, nowIso, d)"
    by (cases c)
  let ?prev = "saveSnapshots getTime cs st"
  have "\<forall>s\<in>set (stored ?prev). getTime (Snapshot.timestamp s) \<noteq> None"
    using set_saveSnapshots [of getTime cs st] old new unfolding calls by fastforce
  moreover from new have "getTime (Snapshot.timestamp (makeSnapshot nowId nowIso d)) \<noteq> None"
    unfolding calls c by simp
  ultimately have "mostRecentFirst getTime
      (sortBy (byTimeDesc getTime) (makeSnapshot nowId nowIso d # stored ?prev))"
    by (intro mostRecentFirst_sortBy) simp
  then show ?thesis
    unfolding calls c saveSnapshots_snoc stored_saveSnapshot by (rule mostRecentFirst_take)
qed


subsection \<open>The duplicate filter of saveBackfilledSnapshots\<close>

lemma findIndex_ge: "- 1 \<le> findIndex p xs"
  by (induction xs) (simp_all add: Let_def)

lemma findIndex_eq_iff:
  "findIndex p xs = int i \<longleftrightarrow> i < length xs \<and> p (xs ! i) \<and> (\<forall>j<i. \<not> p (xs ! j))"
proof (induction xs arbitrary: i)
  case Nil
  show ?case by simp
next
  case (Cons x xs)
  show ?case
  proof (cases "p x")
    case True
    then show ?thesis
      by (cases i) auto
  next
    case False
    show ?thesis
    proof (cases i)
      case 0
      with False findIndex_ge [of p xs] show ?thesis
        by (auto simp: Let_def)
    next
      case (Suc k)
      have "(\<forall>j<Suc k. \<not> p ((x # xs) ! j)) \<longleftrightarrow> (\<forall>j<k. \<not> p (xs ! j))"
        using False by (auto simp: less_Suc_eq_0_disj)
      with False Cons.IH [of k] Suc show ?thesis
        by (auto simp: Let_def)
    qed
  qed
qed

lemma uniqueByTimestamp_nth:
  "uniqueByTimestamp a = map (nth a) (filter (firstOfTimestamp a) [0..<length a])"
proof -
  have zip: "zip a [0..<length a] = map (\<lambda>i. (a ! i, i)) [0..<length a]"
    by (intro nth_equalityI) simp_all
  have "filter (\<lambda>(v, i). findIndex (\<lambda>t. Snapshot.timestamp t = Snapshot.timestamp v) a = int i)
          (map (\<lambda>i. (a ! i, i)) [0..<length a])
        = map (\<lambda>i. (a ! i, i)) (filter (firstOfTimestamp a) [0..<length a])"
    unfolding filter_map
    by (intro arg_cong [where f = "map _"] filter_cong refl)
      (auto simp: findIndex_eq_iff firstOfTimestamp_def)
  then show ?thesis
    by (simp add: uniqueByTimestamp_def zip comp_def)
qed

lemma distinct_uniqueByTimestamp: "distinct (map Snapshot.timestamp (uniqueByTimestamp a))"
proof -
  let ?is = "filter (firstOfTimestamp a) [0..<length a]"
  have "inj_on (\<lambda>i. Snapshot.timestamp (a ! i)) (set ?is)"
  proof (rule inj_onI)
    fix i j
    assume i: "i \<in> set ?is" and j: "j \<in> set ?is"
      and eq: "Snapshot.timestamp (a ! i) = Snapshot.timestamp (a ! j)"
    show "i = j"
    proof (rule ccontr)
      assume "i \<noteq> j"
      then consider "i < j" | "j < i" by linarith
      then show False
        using i j eq by cases (auto simp: firstOfTimestamp_def)
    qed
  qed
  then have "distinct (map (\<lambda>i. Snapshot.timestamp (a ! i)) ?is)"
    by (simp add: distinct_map)
  then show ?thesis
    by (simp add: uniqueByTimestamp_nth comp_def)
qed

lemma set_uniqueByTimestamp: "set (uniqueByTimestamp a) \<subseteq> set a"
  by (auto simp: uniqueByTimestamp_nth)

lemma timestamps_uniqueByTimestamp:
  "Snapshot.timestamp ` set (uniqueByTimestamp a) = Snapshot.timestamp ` set a"
proof
  show "Snapshot.timestamp ` set (uniqueByTimestamp a) \<subseteq> Snapshot.timestamp ` set a"
    using set_uniqueByTimestamp [of a] by (rule image_mono)
  show "Snapshot.timestamp ` set a \<subseteq> Snapshot.timestamp ` set (uniqueByTimestamp a)"
  proof
    fix t assume "t \<in> Snapshot.timestamp ` set a"
    then obtain x where x: "x \<in> set a" "t = Snapshot.timestamp x"
      by (rule imageE)
    from x(1) obtain k where k: "k < length a" "a ! k = x"
      unfolding in_set_conv_nth by blast
    define i where "i = (LEAST i. i < length a \<and> Snapshot.timestamp (a ! i) = t)"
    from k x(2) have "k < length a \<and> Snapshot.timestamp (a ! k) = t"
      by simp
    then have i: "i < length a \<and> Snapshot.timestamp (a ! i) = t"
      unfolding i_def by (rule LeastI)
    have "firstOfTimestamp a i"
      unfolding firstOfTimestamp_def
    proof (intro allI impI notI)
      fix j assume "j < i" and "Snapshot.timestamp (a ! j) = Snapshot.timestamp (a ! i)"
      with i have "j < length a \<and> Snapshot.timestamp (a ! j) = t"
        by simp
      then have "i \<le> j"
        unfolding i_def by (rule Least_le)
      with \<open>j < i\<close> show False by simp
    qed
    with i have "i \<in> set (filter (firstOfTimestamp a) [0..<length a])"
      by simp
    then have "a ! i \<in> set (uniqueByTimestamp a)"
      unfolding uniqueByTimestamp_nth set_map by (rule imageI)
    then have "Snapshot.timestamp (a ! i) \<in> Snapshot.timestamp ` set (uniqueByTimestamp a)"
      by (rule imageI)
    with i show "t \<in> Snapshot.timestamp ` set (uniqueByTimestamp a)"
      by simp
  qed
qed

lemma sorted_wrt_uniqueByTimestamp:
  assumes "sorted_wrt R a"
  shows "sorted_wrt R (uniqueByTimestamp a)"
proof -
  have "sorted_wrt (\<lambda>i j. i < j \<and> j < length a) [0..<length a]"
    by (simp add: sorted_wrt_iff_nth_less)
  then have "sorted_wrt (\<lambda>i j. R (a ! i) (a ! j)) [0..<length a]"
    by (rule sorted_wrt_mono_rel [rotated]) (use assms in \<open>auto simp: sorted_wrt_iff_nth_less\<close>)
  then have "sorted_wrt (\<lambda>i j. R (a ! i) (a ! j)) (filter (firstOfTimestamp a) [0..<length a])"
    by (rule sorted_wrt_filter)
  then show ?thesis
    by (simp add: uniqueByTimestamp_nth sorted_wrt_map)
qed

subsection \<open>saveBackfilledSnapshots\<close>

lemma stored_saveBackfilled:
  "stored (saveBackfilledSnapshots getTime new st) =
     take 200 (uniqueByTimestamp (sortBy (byTimeDesc getTime) (new @ stored st)))"
  by (simp add: saveBackfilledSnapshots_def stored_def Let_def)

lemma saveBackfilled_distinct_timestamps:
  "distinct (map Snapshot.timestamp (getSnapshots (saveBackfilledSnapshots getTime new st)))"
  unfolding getSnapshots_def stored_saveBackfilled take_map [symmetric]
  by (intro distinct_take distinct_uniqueByTimestamp)

lemma mostRecentFirst_saveBackfilled:
  assumes "\<forall>s\<in>set (new @ stored st). getTime (Snapshot.timestamp s) \<noteq> None"
  shows "mostRecentFirst getTime (stored (saveBackfilledSnapshots getTime new st))"
proof -
  from assms have "mostRecentFirst getTime (sortBy (byTimeDesc getTime) (new @ stored st))"
    by (rule mostRecentFirst_sortBy)
  then have "mostRecentFirst getTime
      (uniqueByTimestamp (sortBy (byTimeDesc getTime) (new @ stored st)))"
    unfolding mostRecentFirst_def by (rule sorted_wrt_uniqueByTimestamp)
  then show ?thesis
    unfolding stored_saveBackfilled by (rule mostRecentFirst_take)
qed

lemma sorted_wrt_take_front:
  assumes srt: "sorted_wrt R u"
    and x: "x \<in> set (take n u)"
    and y: "y \<in> set u" "y \<notin> set (take n u)"
  shows "R x y"
proof -
  have "set u = set (take n u) \<union> set (drop n u)"
    by (metis append_take_drop_id set_append)
  with y have "y \<in> set (drop n u)"
    by blast
  moreover from srt have "sorted_wrt R (take n u @ drop n u)"
    by (simp only: append_take_drop_id)
  then have "\<forall>a\<in>set (take n u). \<forall>b\<in>set (drop n u). R a b"
    unfolding sorted_wrt_append by blast
  ultimately show ?thesis
    using x by blast
qed

lemma saveBackfilled_keeps_most_recent:
  assumes parse: "\<forall>s\<in>set (new @ stored st). getTime (Snapshot.timestamp s) \<noteq> None"
    and x: "x \<in> set (stored (saveBackfilledSnapshots getTime new st))"
    and y: "y \<in> set (new @ stored st)"
    and out: "Snapshot.timestamp y
                \<notin> Snapshot.timestamp ` set (stored (saveBackfilledSnapshots getTime new st))"
  shows "\<exists>tx ty. getTime (Snapshot.timestamp x) = Some tx \<and>
           getTime (Snapshot.timestamp y) = Some ty \<and> ty \<le> tx"
proof -
  let ?u = "uniqueByTimestamp (sortBy (byTimeDesc getTime) (new @ stored st))"
  let ?R = "\<lambda>a b. \<exists>ta tb. getTime (Snapshot.timestamp a) = Some ta \<and>
                getTime (Snapshot.timestamp b) = Some tb \<and> tb \<le> ta"
  from parse have "mostRecentFirst getTime (sortBy (byTimeDesc getTime) (new @ stored st))"
    by (rule mostRecentFirst_sortBy)
  then have srt: "sorted_wrt ?R ?u"
    unfolding mostRecentFirst_def by (rule sorted_wrt_uniqueByTimestamp)
  from y have "Snapshot.timestamp y \<in> Snapshot.timestamp ` set (new @ stored st)"
    by (rule imageI)
  then have "Snapshot.timestamp y \<in> Snapshot.timestamp ` set ?u"
    by (simp only: timestamps_uniqueByTimestamp set_sortBy)
  then obtain y' where y': "y' \<in> set ?u" "Snapshot.timestamp y' = Snapshot.timestamp y"
    by (auto simp only: image_iff)
  have "y' \<notin> set (take 200 ?u)"
  proof
    assume "y' \<in> set (take 200 ?u)"
    then have "Snapshot.timestamp y' \<in> Snapshot.timestamp ` set (take 200 ?u)"
      by (rule imageI)
    with out y'(2) show False
      by (simp only: stored_saveBackfilled)
  qed
  moreover from x have "x \<in> set (take 200 ?u)"
    by (simp only: stored_saveBackfilled)
  ultimately have "?R x y'"
    using srt y'(1) by (intro sorted_wrt_take_front [of ?R ?u x 200 y'])
  then show ?thesis
    by (simp only: y'(2))
qed


subsection \<open>The operations against the reference sort\<close>

lemma insertBy_insort_key:
  assumes "allDates getTime (x # ys)"
  shows "insertBy (byTimeDesc getTime) x ys = insort_key (\<lambda>s. - timeOf getTime s) x ys"
  using assms
proof (induction ys)
  case Nil
  show ?case by simp
next
  case (Cons y ys)
  from Cons.prems obtain tx ty where t: "getTime (Snapshot.timestamp x) = Some tx"
    "getTime (Snapshot.timestamp y) = Some ty"
    by (auto simp: allDates_def)
  from Cons.prems have "allDates getTime (x # ys)"
    by (simp add: allDates_def)
  then have "insertBy (byTimeDesc getTime) x ys = insort_key (\<lambda>s. - timeOf getTime s) x ys"
    by (rule Cons.IH)
  moreover from t have "byTimeDesc getTime x y \<le> 0 \<longleftrightarrow> - timeOf getTime x \<le> - timeOf getTime y"
    by (simp add: byTimeDesc_def timeOf_def)
  ultimately show ?case
    by simp
qed

lemma sortBy_sort_key:
  assumes "allDates getTime xs"
  shows "sortBy (byTimeDesc getTime) xs = sort_key (\<lambda>s. - timeOf getTime s) xs"
  using assms
proof (induction xs)
  case Nil
  show ?case by (simp add: sortBy_def)
next
  case (Cons x xs)
  then have IH: "sortBy (byTimeDesc getTime) xs = sort_key (\<lambda>s. - timeOf getTime s) xs"
    by (simp add: allDates_def)
  from Cons.prems have "allDates getTime (x # sort_key (\<lambda>s. - timeOf getTime s) xs)"
    by (simp add: allDates_def)
  from insertBy_insort_key [OF this] IH show ?case
    by (simp add: sortBy_def)
qed

lemma take_insort_key_take:
  "take n (insort_key f x (take n ys)) = take n (insort_key f x ys)"
proof (induction ys arbitrary: n)
  case Nil
  show ?case by simp
next
  case (Cons y ys)
  show ?case
  proof (cases n)
    case 0
    then show ?thesis by simp
  next
    case (Suc m)
    show ?thesis
    proof (cases "f x \<le> f y")
      case True
      have "take m (y # take m ys) = take m (y # ys)"
        by (cases m) simp_all
      with True Suc show ?thesis by simp
    next
      case False
      with Suc Cons.IH [of m] show ?thesis by simp
    qed
  qed
qed

lemma recorded_snoc:
  "recorded (calls @ [(nowId, nowIso, d)]) = recorded calls @ [makeSnapshot nowId nowIso d]"
  by (simp add: recorded_def)

lemma stored_saveSnapshots:
  assumes ne: "calls \<noteq> []"
    and parse: "allDates getTime (recorded calls @ stored st)"
  shows "stored (saveSnapshots getTime calls st)
           = mostRecentOf getTime 100 (rev (recorded calls) @ stored st)"
  using assms
proof (induction calls rule: rev_induct)
  case Nil
  then show ?case by simp
next
  case (snoc c calls)
  obtain nowId nowIso d where c: "c = (nowId, nowIso, d)"
    by (cases c)
  let ?f = "\<lambda>s. - timeOf getTime s"
  let ?mk = "makeSnapshot nowId nowIso d"
  let ?L = "rev (recorded calls) @ stored st"
  from snoc.prems(2) have pL: "allDates getTime (?mk # ?L)"
    by (auto simp: allDates_def c recorded_snoc)
  show ?case
  proof (cases "calls = []")
    case True
    from pL True have "allDates getTime (?mk # stored st)"
      by (simp add: recorded_def)
    from sortBy_sort_key [OF this] True show ?thesis
      by (simp add: c saveSnapshots_def stored_saveSnapshot mostRecentOf_def recorded_def)
  next
    case False
    from pL have "allDates getTime (recorded calls @ stored st)"
      by (auto simp: allDates_def)
    with False have IH: "stored (saveSnapshots getTime calls st) = take 100 (sort_key ?f ?L)"
      using snoc.IH by (simp add: mostRecentOf_def)
    have "set (take 100 (sort_key ?f ?L)) \<subseteq> set ?L"
      using set_take_subset [of 100 "sort_key ?f ?L"] by simp
    with pL have "allDates getTime (?mk # take 100 (sort_key ?f ?L))"
      by (auto simp: allDates_def)
    from sortBy_sort_key [OF this]
    have "stored (saveSnapshots getTime (calls @ [c]) st)
            = take 100 (insort_key ?f ?mk (sort_key ?f (take 100 (sort_key ?f ?L))))"
      by (simp add: c saveSnapshots_snoc stored_saveSnapshot IH)
    also have "sort_key ?f (take 100 (sort_key ?f ?L)) = take 100 (sort_key ?f ?L)"
      by (rule sort_key_id_if_sorted) (simp add: take_map [symmetric] sorted_wrt_take)
    also have "take 100 (insort_key ?f ?mk (take 100 (sort_key ?f ?L)))
                 = take 100 (insort_key ?f ?mk (sort_key ?f ?L))"
      by (rule take_insort_key_take)
    finally show ?thesis
      by (simp add: mostRecentOf_def c recorded_snoc)
  qed
qed

lemma mset_sortBy: "mset (sortBy cmp xs) = mset xs"
proof -
  have ins: "mset (insertBy cmp x ys) = add_mset x (mset ys)" for x ys
    by (induction ys) simp_all
  show ?thesis
    unfolding sortBy_def by (induction xs) (simp_all add: ins)
qed

lemma mset_take_subseteq: "mset (take n xs) \<subseteq># mset xs"
  by (metis append_take_drop_id mset_append mset_subset_eq_add_left)

lemma mset_saveSnapshots:
  "mset (stored (saveSnapshots getTime calls st)) \<subseteq># mset (recorded calls @ stored st)"
proof (induction calls rule: rev_induct)
  case Nil
  show ?case by (simp add: saveSnapshots_def recorded_def)
next
  case (snoc c calls)
  obtain nowId nowIso d where c: "c = (nowId, nowIso, d)"
    by (cases c)
  let ?prev = "stored (saveSnapshots getTime calls st)"
  have "mset (stored (saveSnapshots getTime (calls @ [c]) st))
          \<subseteq># mset (sortBy (byTimeDesc getTime) (makeSnapshot nowId nowIso d # ?prev))"
    unfolding c saveSnapshots_snoc stored_saveSnapshot by (rule mset_take_subseteq)
  also have "\<dots> = add_mset (makeSnapshot nowId nowIso d) (mset ?prev)"
    by (simp add: mset_sortBy)
  also have "\<dots> \<subseteq># add_mset (makeSnapshot nowId nowIso d) (mset (recorded calls @ stored st))"
    using snoc.IH by simp
  also have "\<dots> = mset (recorded (calls @ [c]) @ stored st)"
    by (simp add: c recorded_snoc)
  finally show ?case .
qed

text \<open>What the truncation of a sorted list leaves out is no more recent than what it keeps.\<close>

lemma mostRecentOf_dropped:
  assumes y: "y \<in># mset xs - mset (mostRecentOf getTime n xs)"
    and x: "x \<in> set (mostRecentOf getTime n xs)"
  shows "timeOf getTime y \<le> timeOf getTime x"
proof -
  let ?f = "\<lambda>s. - timeOf getTime s"
  let ?S = "sort_key ?f xs"
  have "mset xs = mset (take n ?S) + mset (drop n ?S)"
    by (metis append_take_drop_id mset_append mset_sort)
  then have "mset xs - mset (mostRecentOf getTime n xs) = mset (drop n ?S)"
    by (simp add: mostRecentOf_def)
  with y have y': "y \<in> set (drop n ?S)"
    by simp
  have "sorted (map ?f (take n ?S @ drop n ?S))"
    by simp
  then have "\<forall>a\<in>set (take n ?S). \<forall>b\<in>set (drop n ?S). ?f a \<le> ?f b"
    unfolding map_append sorted_append by auto
  with x y' show ?thesis
    by (auto simp: mostRecentOf_def)
qed

lemma mostRecentFirst_mostRecentOf:
  assumes "allDates getTime xs"
  shows "mostRecentFirst getTime (mostRecentOf getTime n xs)"
proof -
  let ?f = "\<lambda>s. - timeOf getTime s"
  have "sorted (map ?f (sort_key ?f xs))" by simp
  then have "sorted_wrt (\<lambda>a b. ?f a \<le> ?f b) (sort_key ?f xs)"
    by (simp add: sorted_map)
  then have "sorted_wrt (\<lambda>a b. \<exists>ta tb. getTime (Snapshot.timestamp a) = Some ta \<and>
                          getTime (Snapshot.timestamp b) = Some tb \<and> tb \<le> ta) (sort_key ?f xs)"
  proof (rule sorted_wrt_mono_rel [rotated])
    fix a b assume "a \<in> set (sort_key ?f xs)" "b \<in> set (sort_key ?f xs)" "?f a \<le> ?f b"
    moreover from this assms obtain ta tb where "getTime (Snapshot.timestamp a) = Some ta"
      "getTime (Snapshot.timestamp b) = Some tb"
      unfolding allDates_def set_sort by blast
    ultimately show "\<exists>ta tb. getTime (Snapshot.timestamp a) = Some ta \<and>
                          getTime (Snapshot.timestamp b) = Some tb \<and> tb \<le> ta"
      by (simp add: timeOf_def)
  qed
  then show ?thesis
    unfolding mostRecentFirst_def mostRecentOf_def by (rule sorted_wrt_take)
qed


lemma filter_timestamp_sort_key:
  "filter (\<lambda>y. Snapshot.timestamp y = ts) (sort_key (\<lambda>s. - timeOf getTime s) xs)
     = filter (\<lambda>y. Snapshot.timestamp y = ts) xs"
proof -
  let ?f = "\<lambda>s. - timeOf getTime s"
  define k where "k = - (case getTime ts of None \<Rightarrow> 0 | Some t \<Rightarrow> t)"
  have eq: "filter (\<lambda>y. Snapshot.timestamp y = ts) zs
              = filter (\<lambda>y. Snapshot.timestamp y = ts) (filter (\<lambda>y. ?f y = k) zs)" for zs
    by (induction zs) (auto simp: k_def timeOf_def)
  have "filter (\<lambda>y. Snapshot.timestamp y = ts) (sort_key ?f xs)
          = filter (\<lambda>y. Snapshot.timestamp y = ts) (filter (\<lambda>y. ?f y = k) (sort_key ?f xs))"
    by (rule eq)
  also have "filter (\<lambda>y. ?f y = k) (sort_key ?f xs) = filter (\<lambda>y. ?f y = k) xs"
    by (rule sort_key_stable)
  also have "filter (\<lambda>y. Snapshot.timestamp y = ts) (filter (\<lambda>y. ?f y = k) xs)
               = filter (\<lambda>y. Snapshot.timestamp y = ts) xs"
    by (rule eq [symmetric])
  finally show ?thesis .
qed

lemma find_filter: "List.find P xs = (case filter P xs of [] \<Rightarrow> None | y # ys \<Rightarrow> Some y)"
  by (induction xs) simp_all

lemma uniqueByTimestamp_first:
  assumes "x \<in> set (uniqueByTimestamp a)"
  shows "List.find (\<lambda>y. Snapshot.timestamp y = Snapshot.timestamp x) a = Some x"
proof -
  from assms obtain i where i: "i < length a" "firstOfTimestamp a i" "x = a ! i"
    unfolding uniqueByTimestamp_nth by auto
  then have "\<exists>i<length a. Snapshot.timestamp (a ! i) = Snapshot.timestamp x \<and> x = a ! i \<and>
               (\<forall>j<i. \<not> Snapshot.timestamp (a ! j) = Snapshot.timestamp x)"
    unfolding firstOfTimestamp_def by blast
  then show ?thesis
    unfolding find_Some_iff .
qed

lemma saveBackfilled_first:
  assumes parse: "allDates getTime (new @ stored st)"
    and x: "x \<in> set (stored (saveBackfilledSnapshots getTime new st))"
  shows "List.find (\<lambda>y. Snapshot.timestamp y = Snapshot.timestamp x) (new @ stored st) = Some x"
proof -
  let ?f = "\<lambda>s. - timeOf getTime s"
  let ?S = "sort_key ?f (new @ stored st)"
  from x have "x \<in> set (take 200 (uniqueByTimestamp ?S))"
    by (simp only: stored_saveBackfilled sortBy_sort_key [OF parse])
  then have "x \<in> set (uniqueByTimestamp ?S)"
    by (rule in_set_takeD)
  then have "List.find (\<lambda>y. Snapshot.timestamp y = Snapshot.timestamp x) ?S = Some x"
    by (rule uniqueByTimestamp_first)
  then show ?thesis
    by (simp only: find_filter filter_timestamp_sort_key)
qed

lemma length_uniqueByTimestamp:
  "length (uniqueByTimestamp a) = card (Snapshot.timestamp ` set a)"
proof -
  have "card (set (map Snapshot.timestamp (uniqueByTimestamp a)))
          = length (map Snapshot.timestamp (uniqueByTimestamp a))"
    by (rule distinct_card) (rule distinct_uniqueByTimestamp)
  then show ?thesis
    by (simp only: set_map timestamps_uniqueByTimestamp length_map)
qed

lemma length_saveBackfilled:
  "length (stored (saveBackfilledSnapshots getTime new st))
     = min 200 (card (Snapshot.timestamp ` set (new @ stored st)))"
  by (simp add: stored_saveBackfilled length_uniqueByTimestamp set_sortBy min.commute
      del: set_append)

lemma set_saveBackfilled:
  "set (stored (saveBackfilledSnapshots getTime new st)) \<subseteq> set (new @ stored st)"
proof -
  have "set (stored (saveBackfilledSnapshots getTime new st))
          \<subseteq> set (uniqueByTimestamp (sortBy (byTimeDesc getTime) (new @ stored st)))"
    unfolding stored_saveBackfilled by (rule set_take_subset)
  also have "\<dots> \<subseteq> set (sortBy (byTimeDesc getTime) (new @ stored st))"
    by (rule set_uniqueByTimestamp)
  finally show ?thesis
    by (simp only: set_sortBy)
qed

lemma timestamps_saveBackfilled:
  assumes "card (Snapshot.timestamp ` set (new @ stored st)) \<le> 200"
  shows "Snapshot.timestamp ` set (stored (saveBackfilledSnapshots getTime new st))
           = Snapshot.timestamp ` set (new @ stored st)"
proof -
  let ?U = "uniqueByTimestamp (sortBy (byTimeDesc getTime) (new @ stored st))"
  from assms have "length ?U \<le> 200"
    by (simp only: length_uniqueByTimestamp set_sortBy)
  then have "take 200 ?U = ?U" by simp
  then show ?thesis
    by (simp only: stored_saveBackfilled timestamps_uniqueByTimestamp set_sortBy)
qed


subsection \<open>The claims about the store\<close>

lemma stored_simps: "stored None = []" "stored (Some xs) = xs"
  by (simp_all add: stored_def)

lemma timestamp_makeSnapshot:
  "Snapshot.timestamp (makeSnapshot nowId nowIso d) =
     (if includesT (Records.timestamp (records d)) then Records.timestamp (records d) else nowIso)"
  by (simp add: makeSnapshot_def Let_def)

lemma timestamp_sampleResponse: "Records.timestamp (records (sampleResponse ts)) = ts"
  by (simp add: sampleResponse_def)

text \<open>
  C1. The claim: no two entries of the list share a timestamp, whatever operations
  ran, and saving twice with one timestamp leaves one entry for it. The code at a
  concrete input: two calls of \<open>saveSnapshot\<close> on the empty store with one response
  whose timestamp is an ISO string leave two entries with that timestamp. The
  single-record operation sorts and truncates and never removes duplicates; the batch
  operation does (\<open>saveBackfilled_distinct_timestamps\<close>).
\<close>

theorem saveSnapshot_twice_keeps_both:
  "map Snapshot.timestamp
     (getSnapshots
       (saveSnapshot sampleGetTime ''1711620000001'' ''2024-03-28T10:00:00.001Z''
          (sampleResponse ''2024-03-28T10:00:00.000Z'')
          (saveSnapshot sampleGetTime ''1711620000000'' ''2024-03-28T10:00:00.000Z''
             (sampleResponse ''2024-03-28T10:00:00.000Z'') None)))
   = [''2024-03-28T10:00:00.000Z'', ''2024-03-28T10:00:00.000Z'']"
  unfolding getSnapshots_def stored_saveSnapshot
  by (simp add: sortBy_def stored_simps timestamp_makeSnapshot timestamp_sampleResponse
      includesT_def)

text \<open>
  C4. A sequence of calls of \<open>saveSnapshot\<close> leaves \<open>min 100 (stored + calls)\<close>
  entries, so exactly 100 after more than 100 calls, and every entry is a recorded or a
  previously stored summary, no more often than it was recorded or stored. When all
  timestamps involved are dates, the list is the first 100 of the stable descending
  sort of the recorded and the stored summaries: it is ordered most-recent-first and
  whatever was left out is no more recent than any entry kept.
  \<open>saveBackfilledSnapshots\<close> keeps one entry per timestamp of the merged collection,
  200 at most, each an entry of the merged collection; when all timestamps are dates,
  the list is ordered most-recent-first, the entry kept for a timestamp is the first
  one with that timestamp in new-then-stored order, every timestamp is kept as long as
  there are at most 200 of them, and a timestamp that was dropped is no more recent
  than any entry kept.
\<close>

theorem retention_keeps_most_recent:
  "(calls \<noteq> [] \<longrightarrow>
      length (getSnapshots (saveSnapshots getTime calls st))
        = min 100 (length (stored st) + length calls)) \<and>
   (100 < length calls \<longrightarrow> length (getSnapshots (saveSnapshots getTime calls st)) = 100) \<and>
   mset (getSnapshots (saveSnapshots getTime calls st)) \<subseteq># mset (recorded calls @ stored st) \<and>
   (calls \<noteq> [] \<and> allDates getTime (recorded calls @ stored st) \<longrightarrow>
      getSnapshots (saveSnapshots getTime calls st)
        = mostRecentOf getTime 100 (rev (recorded calls) @ stored st) \<and>
      mostRecentFirst getTime (getSnapshots (saveSnapshots getTime calls st)) \<and>
      (\<forall>x\<in>set (getSnapshots (saveSnapshots getTime calls st)).
         \<forall>y. y \<in># mset (recorded calls @ stored st)
                    - mset (getSnapshots (saveSnapshots getTime calls st))
           \<longrightarrow> timeOf getTime y \<le> timeOf getTime x)) \<and>
   length (getSnapshots (saveBackfilledSnapshots getTime new st))
     = min 200 (card (Snapshot.timestamp ` set (new @ stored st))) \<and>
   set (getSnapshots (saveBackfilledSnapshots getTime new st)) \<subseteq> set (new @ stored st) \<and>
   distinct (map Snapshot.timestamp (getSnapshots (saveBackfilledSnapshots getTime new st))) \<and>
   (allDates getTime (new @ stored st) \<longrightarrow>
      mostRecentFirst getTime (getSnapshots (saveBackfilledSnapshots getTime new st)) \<and>
      (\<forall>x\<in>set (getSnapshots (saveBackfilledSnapshots getTime new st)).
         List.find (\<lambda>y. Snapshot.timestamp y = Snapshot.timestamp x) (new @ stored st) = Some x) \<and>
      (card (Snapshot.timestamp ` set (new @ stored st)) \<le> 200 \<longrightarrow>
         Snapshot.timestamp ` set (getSnapshots (saveBackfilledSnapshots getTime new st))
           = Snapshot.timestamp ` set (new @ stored st)) \<and>
      (\<forall>x\<in>set (getSnapshots (saveBackfilledSnapshots getTime new st)).
         \<forall>y\<in>set (new @ stored st).
           Snapshot.timestamp y
             \<notin> Snapshot.timestamp ` set (getSnapshots (saveBackfilledSnapshots getTime new st))
           \<longrightarrow> timeOf getTime y \<le> timeOf getTime x))"
proof (intro conjI impI ballI allI)
  assume "calls \<noteq> []"
  then show "length (getSnapshots (saveSnapshots getTime calls st))
        = min 100 (length (stored st) + length calls)"
    unfolding getSnapshots_def by (rule length_saveSnapshots)
next
  assume "100 < length calls"
  then have "calls \<noteq> []" by auto
  from length_saveSnapshots [OF this, of getTime st] \<open>100 < length calls\<close>
  show "length (getSnapshots (saveSnapshots getTime calls st)) = 100"
    by (simp add: getSnapshots_def)
next
  show "mset (getSnapshots (saveSnapshots getTime calls st)) \<subseteq># mset (recorded calls @ stored st)"
    unfolding getSnapshots_def by (rule mset_saveSnapshots)
next
  assume a: "calls \<noteq> [] \<and> allDates getTime (recorded calls @ stored st)"
  then show eq: "getSnapshots (saveSnapshots getTime calls st)
        = mostRecentOf getTime 100 (rev (recorded calls) @ stored st)"
    unfolding getSnapshots_def by (intro stored_saveSnapshots) simp_all
  from a have "allDates getTime (rev (recorded calls) @ stored st)"
    by (simp add: allDates_def)
  then show "mostRecentFirst getTime (getSnapshots (saveSnapshots getTime calls st))"
    unfolding eq by (rule mostRecentFirst_mostRecentOf)
  fix x y
  assume "x \<in> set (getSnapshots (saveSnapshots getTime calls st))"
    and "y \<in># mset (recorded calls @ stored st)
                    - mset (getSnapshots (saveSnapshots getTime calls st))"
  then have "x \<in> set (mostRecentOf getTime 100 (rev (recorded calls) @ stored st))"
    and "y \<in># mset (rev (recorded calls) @ stored st)
                 - mset (mostRecentOf getTime 100 (rev (recorded calls) @ stored st))"
    unfolding eq by simp_all
  then show "timeOf getTime y \<le> timeOf getTime x"
    by (intro mostRecentOf_dropped)
next
  show "length (getSnapshots (saveBackfilledSnapshots getTime new st))
     = min 200 (card (Snapshot.timestamp ` set (new @ stored st)))"
    unfolding getSnapshots_def by (rule length_saveBackfilled)
next
  show "set (getSnapshots (saveBackfilledSnapshots getTime new st)) \<subseteq> set (new @ stored st)"
    unfolding getSnapshots_def by (rule set_saveBackfilled)
next
  show "distinct (map Snapshot.timestamp (getSnapshots (saveBackfilledSnapshots getTime new st)))"
    by (rule saveBackfilled_distinct_timestamps)
next
  assume a: "allDates getTime (new @ stored st)"
  then show "mostRecentFirst getTime (getSnapshots (saveBackfilledSnapshots getTime new st))"
    unfolding getSnapshots_def allDates_def by (rule mostRecentFirst_saveBackfilled)
next
  fix x
  assume "allDates getTime (new @ stored st)"
    and "x \<in> set (getSnapshots (saveBackfilledSnapshots getTime new st))"
  then show "List.find (\<lambda>y. Snapshot.timestamp y = Snapshot.timestamp x) (new @ stored st) = Some x"
    unfolding getSnapshots_def by (rule saveBackfilled_first)
next
  assume "card (Snapshot.timestamp ` set (new @ stored st)) \<le> 200"
  then show "Snapshot.timestamp ` set (getSnapshots (saveBackfilledSnapshots getTime new st))
           = Snapshot.timestamp ` set (new @ stored st)"
    unfolding getSnapshots_def by (rule timestamps_saveBackfilled)
next
  fix x y
  assume "allDates getTime (new @ stored st)"
    and "x \<in> set (getSnapshots (saveBackfilledSnapshots getTime new st))"
    and "y \<in> set (new @ stored st)"
    and "Snapshot.timestamp y
           \<notin> Snapshot.timestamp ` set (getSnapshots (saveBackfilledSnapshots getTime new st))"
  then have "\<exists>tx ty. getTime (Snapshot.timestamp x) = Some tx \<and>
                  getTime (Snapshot.timestamp y) = Some ty \<and> ty \<le> tx"
    unfolding getSnapshots_def allDates_def by (rule saveBackfilled_keeps_most_recent)
  then show "timeOf getTime y \<le> timeOf getTime x"
    by (auto simp: timeOf_def)
qed


section \<open>Verification of the parser and of the time intervals\<close>

subsection \<open>The parser\<close>

lemma those_map_None_iff: "those (map f xs) = None \<longleftrightarrow> (\<exists>x\<in>set xs. f x = None)"
  by (induction xs) (auto split: option.splits)

lemma those_map_Some: "those (map f xs) = Some ys \<Longrightarrow> map Some ys = map f xs"
  by (induction xs arbitrary: ys) (auto split: option.splits)

lemma mkStrike_None_iff: "mkStrike bi expiry symbol u entry = None \<longleftrightarrow> snd entry = None"
  by (simp add: mkStrike_def Let_def split: option.splits)

lemma mkStrike_Some:
  assumes "mkStrike bi expiry symbol u (k, e) = Some d"
  shows "\<exists>s. e = Some s \<and> StrikeRecord.strikePrice d = parseFloat bi k \<and>
           StrikeRecord.expiryDate d = expiry \<and>
           map_option openInterest (StrikeRecord.CE d) = Some (parseInt bi (orZero bi (callOi s))) \<and>
           map_option openInterest (StrikeRecord.PE d) = Some (parseInt bi (orZero bi (putOi s)))"
  using assms by (auto simp: mkStrike_def Let_def mkLeg_def split: option.splits)

lemma parse_None_iff:
  "parseSnapshotBody bi today expiry ts symbol (Some b) = None \<longleftrightarrow>
     (underlyingOf bi b = 0 \<and> (oiData b = None \<or> oiData b = Some [])) \<or>
     (\<exists>m. oiData b = Some m \<and> None \<in> snd ` set m)"
proof (cases "oiData b")
  case None
  then show ?thesis by (simp add: parseSnapshotBody_def Let_def)
next
  case (Some m)
  have th: "those (map (mkStrike bi expiry symbol (underlyingOf bi b)) m) = None
              \<longleftrightarrow> None \<in> snd ` set m"
    unfolding those_map_None_iff mkStrike_None_iff image_iff by (rule bex_cong) auto
  show ?thesis
  proof (cases "those (map (mkStrike bi expiry symbol (underlyingOf bi b)) m)")
    case None
    with th Some show ?thesis
      by (simp add: parseSnapshotBody_def Let_def)
  next
    case (Some pushed)
    with th have "None \<notin> snd ` set m" by simp
    with Some \<open>oiData b = Some m\<close> show ?thesis
      by (simp add: parseSnapshotBody_def Let_def)
  qed
qed

lemma map_insort_key: "map f (insort_key f x xs) = insort (f x) (map f xs)"
  by (induction xs) simp_all

lemma map_sort_key: "map f (sort_key f xs) = sort (map f xs)"
  by (induction xs) (simp_all add: map_insort_key)

lemma parse_Some:
  assumes "parseSnapshotBody bi today expiry ts symbol (Some b) = Some r"
  shows "Records.underlyingValue (records r) = underlyingOf bi b"
    and "map StrikeRecord.strikePrice (Records.data' (records r))
           = sort (map (\<lambda>e. parseFloat bi (fst e)) (case oiData b of None \<Rightarrow> [] | Some m \<Rightarrow> m))"
    and "Records.strikePrices (records r) = map StrikeRecord.strikePrice (Records.data' (records r))"
    and "Filtered.data' (filtered r) = Records.data' (records r)"
    and "\<forall>e\<in>set (case oiData b of None \<Rightarrow> [] | Some m \<Rightarrow> m).
           \<exists>d\<in>set (Records.data' (records r)). \<exists>s. snd e = Some s \<and>
             StrikeRecord.strikePrice d = parseFloat bi (fst e) \<and>
             StrikeRecord.expiryDate d = expiry \<and>
             map_option openInterest (StrikeRecord.CE d)
               = Some (parseInt bi (orZero bi (callOi s))) \<and>
             map_option openInterest (StrikeRecord.PE d)
               = Some (parseInt bi (orZero bi (putOi s)))"
proof -
  define oi where "oi = (case oiData b of None \<Rightarrow> [] | Some m \<Rightarrow> m)"
  define u where "u = underlyingOf bi b"
  from assms obtain pushed where
    pushed: "those (map (mkStrike bi expiry symbol u) oi) = Some pushed"
    and dat: "Records.data' (records r) = sort_key StrikeRecord.strikePrice pushed"
    and fil: "Filtered.data' (filtered r) = sort_key StrikeRecord.strikePrice pushed"
    and sp: "Records.strikePrices (records r)
               = map StrikeRecord.strikePrice (sort_key StrikeRecord.strikePrice pushed)"
    and uv: "Records.underlyingValue (records r) = u"
    unfolding parseSnapshotBody_def Let_def oi_def u_def
    by (auto split: option.splits if_splits)
  from those_map_Some [OF pushed]
  have m: "map Some pushed = map (mkStrike bi expiry symbol u) oi" .
  then have len: "length pushed = length oi"
    by (metis length_map)
  have nth: "mkStrike bi expiry symbol u (oi ! i) = Some (pushed ! i)" if "i < length oi" for i
  proof -
    from m have "map Some pushed ! i = map (mkStrike bi expiry symbol u) oi ! i" by simp
    with that len show ?thesis by simp
  qed
  have prices: "map StrikeRecord.strikePrice pushed = map (\<lambda>e. parseFloat bi (fst e)) oi"
  proof (rule nth_equalityI)
    show "length (map StrikeRecord.strikePrice pushed) = length (map (\<lambda>e. parseFloat bi (fst e)) oi)"
      using len by simp
  next
    fix i assume "i < length (map StrikeRecord.strikePrice pushed)"
    then have i: "i < length oi" using len by simp
    from nth [OF i] have "mkStrike bi expiry symbol u (fst (oi ! i), snd (oi ! i)) = Some (pushed ! i)"
      by simp
    from mkStrike_Some [OF this] i len
    show "map StrikeRecord.strikePrice pushed ! i = map (\<lambda>e. parseFloat bi (fst e)) oi ! i"
      by auto
  qed
  show "Records.underlyingValue (records r) = underlyingOf bi b"
    using uv by (simp add: u_def)
  have "map StrikeRecord.strikePrice (sort_key StrikeRecord.strikePrice pushed)
          = sort (map StrikeRecord.strikePrice pushed)"
    by (rule map_sort_key)
  then show "map StrikeRecord.strikePrice (Records.data' (records r))
           = sort (map (\<lambda>e. parseFloat bi (fst e)) oi)"
    using dat prices by simp
  show "Records.strikePrices (records r) = map StrikeRecord.strikePrice (Records.data' (records r))"
    using sp dat by simp
  show "Filtered.data' (filtered r) = Records.data' (records r)"
    using fil dat by simp
  show "\<forall>e\<in>set oi.
           \<exists>d\<in>set (Records.data' (records r)). \<exists>s. snd e = Some s \<and>
             StrikeRecord.strikePrice d = parseFloat bi (fst e) \<and>
             StrikeRecord.expiryDate d = expiry \<and>
             map_option openInterest (StrikeRecord.CE d)
               = Some (parseInt bi (orZero bi (callOi s))) \<and>
             map_option openInterest (StrikeRecord.PE d)
               = Some (parseInt bi (orZero bi (putOi s)))"
  proof
    fix e assume "e \<in> set oi"
    then obtain i where i: "i < length oi" and e: "e = oi ! i"
      by (metis in_set_conv_nth)
    from nth [OF i] e have "mkStrike bi expiry symbol u (fst e, snd e) = Some (pushed ! i)"
      by simp
    from mkStrike_Some [OF this] obtain s where
      s: "snd e = Some s" "StrikeRecord.strikePrice (pushed ! i) = parseFloat bi (fst e)"
         "StrikeRecord.expiryDate (pushed ! i) = expiry"
         "map_option openInterest (StrikeRecord.CE (pushed ! i))
            = Some (parseInt bi (orZero bi (callOi s)))"
         "map_option openInterest (StrikeRecord.PE (pushed ! i))
            = Some (parseInt bi (orZero bi (putOi s)))"
      by blast
    have "pushed ! i \<in> set (Records.data' (records r))"
      using dat i len by simp
    with s show "\<exists>d\<in>set (Records.data' (records r)). \<exists>s. snd e = Some s \<and>
             StrikeRecord.strikePrice d = parseFloat bi (fst e) \<and>
             StrikeRecord.expiryDate d = expiry \<and>
             map_option openInterest (StrikeRecord.CE d)
               = Some (parseInt bi (orZero bi (callOi s))) \<and>
             map_option openInterest (StrikeRecord.PE d)
               = Some (parseInt bi (orZero bi (putOi s)))"
      by blast
  qed
qed

lemma underlyingOf_sampleBody: "underlyingOf bi (sampleBody price) = price"
  by (simp add: underlyingOf_def sampleBody_def truthy_def parseLp_def)

lemma underlyingOf_sampleBodyOf: "underlyingOf bi (sampleBodyOf m) = 22000"
  by (simp add: underlyingOf_def sampleBodyOf_def truthy_def parseLp_def)

text \<open>
  C7, as claimed, at a payload with the underlying price 22000 whose strike mapping has
  two keys, one of them with the value \<open>null\<close>: the price is not zero and the mapping
  is not empty, and the parser fails (the callback of \<open>forEach\<close> throws on \<open>null\<close>
  and the \<open>catch\<close> branch returns \<open>null\<close>).
\<close>

theorem parser_fails_on_null_entry_counterexample:
  "parseSnapshotBody sampleBuiltins ''2024-03-28'' ''28-Mar-2024'' ''09:15'' ''NIFTY''
     (Some sampleNullEntry) = None \<and>
   underlyingOf sampleBuiltins sampleNullEntry = 22000 \<and>
   oiData sampleNullEntry = Some [(''17900'', Some sampleEntry), (''18000'', None)]"
  by (simp add: parse_None_iff sampleNullEntry_def underlyingOf_sampleBodyOf)
    (simp add: sampleBodyOf_def)

text \<open>
  C7, amended. For a payload with a body, the parser fails exactly when the parsed
  underlying price is 0 and the strike mapping is absent or empty, or when some key of
  the mapping has the value \<open>null\<close>; without a body it fails as well.
  \<open>fetchTrendlyneSnapshot\<close> returns what the parser returns when the response is ok and
  its head reports no error. When the parser succeeds, the snapshot has the parsed
  price, its strike prices are the parsed keys in ascending order (in all three views of
  the strikes), and every key has a record with both legs that carries the parsed open
  interests of its entry; so a payload with an empty mapping and the price 22000 yields
  a snapshot without strikes, and the same payload with the price 0 fails.
\<close>

theorem parser_fails_iff_no_data_or_null_entry:
  "(parseSnapshotBody bi today expiry ts symbol (Some b) = None \<longleftrightarrow>
      (underlyingOf bi b = 0 \<and> (oiData b = None \<or> oiData b = Some [])) \<or>
      (\<exists>m. oiData b = Some m \<and> None \<in> snd ` set m)) \<and>
   parseSnapshotBody bi today expiry ts symbol None = None \<and>
   (\<forall>r. parseSnapshotBody bi today expiry ts symbol (Some b) = Some r \<longrightarrow>
      Records.underlyingValue (records r) = underlyingOf bi b \<and>
      map StrikeRecord.strikePrice (Records.data' (records r))
        = sort (map (\<lambda>e. parseFloat bi (fst e)) (case oiData b of None \<Rightarrow> [] | Some m \<Rightarrow> m)) \<and>
      Records.strikePrices (records r) = map StrikeRecord.strikePrice (Records.data' (records r)) \<and>
      Filtered.data' (filtered r) = Records.data' (records r) \<and>
      (\<forall>e\<in>set (case oiData b of None \<Rightarrow> [] | Some m \<Rightarrow> m).
         \<exists>d\<in>set (Records.data' (records r)). \<exists>s. snd e = Some s \<and>
           StrikeRecord.strikePrice d = parseFloat bi (fst e) \<and>
           StrikeRecord.expiryDate d = expiry \<and>
           map_option openInterest (StrikeRecord.CE d)
             = Some (parseInt bi (orZero bi (callOi s))) \<and>
           map_option openInterest (StrikeRecord.PE d)
             = Some (parseInt bi (orZero bi (putOi s))))) \<and>
   (\<exists>r. parseSnapshotBody bi today expiry ts symbol (Some (sampleBody 22000)) = Some r \<and>
      Records.data' (records r) = [] \<and> Records.underlyingValue (records r) = 22000) \<and>
   parseSnapshotBody bi today expiry ts symbol (Some (sampleBody 0)) = None \<and>
   (ok resp \<and> \<not> headError (json resp) \<longrightarrow>
      fetchTrendlyneSnapshot bi today (Some resp) stockId expiry ts symbol =
        parseSnapshotBody bi today expiry ts symbol (body (json resp)))"
proof (intro conjI allI impI)
  assume "ok resp \<and> \<not> headError (json resp)"
  then show "fetchTrendlyneSnapshot bi today (Some resp) stockId expiry ts symbol =
        parseSnapshotBody bi today expiry ts symbol (body (json resp))"
    by (simp add: fetchTrendlyneSnapshot_def)
next
  show "parseSnapshotBody bi today expiry ts symbol (Some b) = None \<longleftrightarrow>
      (underlyingOf bi b = 0 \<and> (oiData b = None \<or> oiData b = Some [])) \<or>
      (\<exists>m. oiData b = Some m \<and> None \<in> snd ` set m)"
    by (rule parse_None_iff)
  show "parseSnapshotBody bi today expiry ts symbol None = None"
    by (simp add: parseSnapshotBody_def)
  show "\<exists>r. parseSnapshotBody bi today expiry ts symbol (Some (sampleBody 22000)) = Some r \<and>
      Records.data' (records r) = [] \<and> Records.underlyingValue (records r) = 22000"
    by (simp add: parseSnapshotBody_def Let_def underlyingOf_sampleBody)
      (simp add: sampleBody_def)
  show "parseSnapshotBody bi today expiry ts symbol (Some (sampleBody 0)) = None"
    by (simp add: parse_None_iff underlyingOf_sampleBody) (simp add: sampleBody_def)
next
  fix r assume r: "parseSnapshotBody bi today expiry ts symbol (Some b) = Some r"
  from parse_Some [OF r]
  show "Records.underlyingValue (records r) = underlyingOf bi b"
    and "map StrikeRecord.strikePrice (Records.data' (records r))
        = sort (map (\<lambda>e. parseFloat bi (fst e)) (case oiData b of None \<Rightarrow> [] | Some m \<Rightarrow> m))"
    and "Records.strikePrices (records r) = map StrikeRecord.strikePrice (Records.data' (records r))"
    and "Filtered.data' (filtered r) = Records.data' (records r)"
    and "\<forall>e\<in>set (case oiData b of None \<Rightarrow> [] | Some m \<Rightarrow> m).
         \<exists>d\<in>set (Records.data' (records r)). \<exists>s. snd e = Some s \<and>
           StrikeRecord.strikePrice d = parseFloat bi (fst e) \<and>
           StrikeRecord.expiryDate d = expiry \<and>
           map_option openInterest (StrikeRecord.CE d)
             = Some (parseInt bi (orZero bi (callOi s))) \<and>
           map_option openInterest (StrikeRecord.PE d)
             = Some (parseInt bi (orZero bi (putOi s)))"
    by blast+
qed

lemma sample_parse_values:
  "parseFloat sampleBuiltins ''17900'' = 17900"
  "parseFloat sampleBuiltins ''18000'' = 18000"
  "parseInt sampleBuiltins (orZero sampleBuiltins (callOi sampleEntry)) = 1000"
  "parseInt sampleBuiltins (orZero sampleBuiltins (putOi sampleEntry)) = 500"
  by code_simp+

theorem parser_fails_iff_no_data_or_null_entry_witness:
  "parseSnapshotBody sampleBuiltins ''2024-03-28'' ''28-Mar-2024'' ''09:15'' ''NIFTY''
     (Some (sampleBody 0)) = None \<and>
   parseSnapshotBody sampleBuiltins ''2024-03-28'' ''28-Mar-2024'' ''09:15'' ''NIFTY''
     (Some (sampleBodyOf [(''18000'', None)])) = None \<and>
   (\<exists>r. parseSnapshotBody sampleBuiltins ''2024-03-28'' ''28-Mar-2024'' ''09:15'' ''NIFTY''
          (Some (sampleBodyOf [(''18000'', Some sampleEntry), (''17900'', Some sampleEntry)]))
          = Some r \<and>
        Records.underlyingValue (records r) = 22000 \<and>
        Records.strikePrices (records r) = [17900, 18000] \<and>
        (\<exists>d\<in>set (Records.data' (records r)).
           StrikeRecord.strikePrice d = 17900 \<and>
           map_option openInterest (StrikeRecord.CE d) = Some 1000 \<and>
           map_option openInterest (StrikeRecord.PE d) = Some 500)) \<and>
   (\<exists>r. parseSnapshotBody sampleBuiltins ''2024-03-28'' ''28-Mar-2024'' ''09:15'' ''NIFTY''
          (Some (sampleBody 22000)) = Some r \<and>
        Records.underlyingValue (records r) = 22000 \<and>
        Records.strikePrices (records r) = []) \<and>
   ok (samplePayload 22000) \<and> \<not> headError (json (samplePayload 22000)) \<and>
   fetchTrendlyneSnapshot sampleBuiltins ''2024-03-28'' (Some (samplePayload 22000)) ''1887''
     ''28-Mar-2024'' ''09:15'' ''NIFTY''
   = parseSnapshotBody sampleBuiltins ''2024-03-28'' ''28-Mar-2024'' ''09:15'' ''NIFTY''
       (Some (sampleBody 22000))"
proof -
  let ?parse = "parseSnapshotBody sampleBuiltins ''2024-03-28'' ''28-Mar-2024'' ''09:15'' ''NIFTY''"
  let ?two = "sampleBodyOf [(''18000'', Some sampleEntry), (''17900'', Some sampleEntry)]"
  have okr: "ok (samplePayload 22000) \<and> \<not> headError (json (samplePayload 22000))"
    by (simp add: samplePayload_def headError_def truthy_def)
  with parser_fails_iff_no_data_or_null_entry
    [of sampleBuiltins "''2024-03-28''" "''28-Mar-2024''" "''09:15''" "''NIFTY''" "sampleBody 0"
      "samplePayload 22000" "''1887''"]
  have fetch: "fetchTrendlyneSnapshot sampleBuiltins ''2024-03-28'' (Some (samplePayload 22000))
      ''1887'' ''28-Mar-2024'' ''09:15'' ''NIFTY'' = ?parse (Some (sampleBody 22000))"
    by (simp add: samplePayload_def)
  note inst = parser_fails_iff_no_data_or_null_entry
    [of sampleBuiltins "''2024-03-28''" "''28-Mar-2024''" "''09:15''" "''NIFTY''"]
  have "underlyingOf sampleBuiltins (sampleBody 0) = 0 \<and>
      (oiData (sampleBody 0) = None \<or> oiData (sampleBody 0) = Some [])"
    by (simp add: underlyingOf_sampleBody) (simp add: sampleBody_def)
  with inst [of "sampleBody 0"]
  have fail: "?parse (Some (sampleBody 0)) = None"
    by blast
  have "\<exists>m. oiData (sampleBodyOf [(''18000'', None)]) = Some m \<and> None \<in> snd ` set m"
    by (simp add: sampleBodyOf_def)
  with inst [of "sampleBodyOf [(''18000'', None)]"]
  have failNull: "?parse (Some (sampleBodyOf [(''18000'', None)])) = None"
    by blast
  have "\<not> ((underlyingOf sampleBuiltins (sampleBody 22000) = 0 \<and>
      (oiData (sampleBody 22000) = None \<or> oiData (sampleBody 22000) = Some [])) \<or>
      (\<exists>m. oiData (sampleBody 22000) = Some m \<and> None \<in> snd ` set m))"
    by (simp add: underlyingOf_sampleBody) (simp add: sampleBody_def)
  with inst [of "sampleBody 22000"]
  obtain r where r: "?parse (Some (sampleBody 22000)) = Some r"
    by (cases "?parse (Some (sampleBody 22000))") auto
  with inst [of "sampleBody 22000"]
  have "Records.underlyingValue (records r) = underlyingOf sampleBuiltins (sampleBody 22000)"
    and "map StrikeRecord.strikePrice (Records.data' (records r))
        = sort (map (\<lambda>e. parseFloat sampleBuiltins (fst e))
            (case oiData (sampleBody 22000) of None \<Rightarrow> [] | Some m \<Rightarrow> m))"
    and "Records.strikePrices (records r) = map StrikeRecord.strikePrice (Records.data' (records r))"
    by blast+
  then have empty: "Records.underlyingValue (records r) = 22000 \<and> Records.strikePrices (records r) = []"
    by (simp add: underlyingOf_sampleBody) (simp add: sampleBody_def)
  have oi2: "oiData ?two = Some [(''18000'', Some sampleEntry), (''17900'', Some sampleEntry)]"
    by (simp add: sampleBodyOf_def)
  have "\<not> ((underlyingOf sampleBuiltins ?two = 0 \<and> (oiData ?two = None \<or> oiData ?two = Some [])) \<or>
      (\<exists>m. oiData ?two = Some m \<and> None \<in> snd ` set m))"
    by (simp add: underlyingOf_sampleBodyOf oi2)
  with inst [of ?two]
  obtain r2 where r2: "?parse (Some ?two) = Some r2"
    by (cases "?parse (Some ?two)") auto
  with inst [of ?two]
  have u2: "Records.underlyingValue (records r2) = underlyingOf sampleBuiltins ?two"
    and p2: "map StrikeRecord.strikePrice (Records.data' (records r2))
        = sort (map (\<lambda>e. parseFloat sampleBuiltins (fst e))
            (case oiData ?two of None \<Rightarrow> [] | Some m \<Rightarrow> m))"
    and s2: "Records.strikePrices (records r2) = map StrikeRecord.strikePrice (Records.data' (records r2))"
    and e2: "\<forall>e\<in>set (case oiData ?two of None \<Rightarrow> [] | Some m \<Rightarrow> m).
         \<exists>d\<in>set (Records.data' (records r2)). \<exists>s. snd e = Some s \<and>
           StrikeRecord.strikePrice d = parseFloat sampleBuiltins (fst e) \<and>
           StrikeRecord.expiryDate d = ''28-Mar-2024'' \<and>
           map_option openInterest (StrikeRecord.CE d)
             = Some (parseInt sampleBuiltins (orZero sampleBuiltins (callOi s))) \<and>
           map_option openInterest (StrikeRecord.PE d)
             = Some (parseInt sampleBuiltins (orZero sampleBuiltins (putOi s)))"
    by blast+
  from e2 have "\<exists>d\<in>set (Records.data' (records r2)). \<exists>s. Some sampleEntry = Some s \<and>
           StrikeRecord.strikePrice d = parseFloat sampleBuiltins ''17900'' \<and>
           StrikeRecord.expiryDate d = ''28-Mar-2024'' \<and>
           map_option openInterest (StrikeRecord.CE d)
             = Some (parseInt sampleBuiltins (orZero sampleBuiltins (callOi s))) \<and>
           map_option openInterest (StrikeRecord.PE d)
             = Some (parseInt sampleBuiltins (orZero sampleBuiltins (putOi s)))"
    unfolding oi2 by simp
  then have d2: "\<exists>d\<in>set (Records.data' (records r2)).
           StrikeRecord.strikePrice d = 17900 \<and>
           map_option openInterest (StrikeRecord.CE d) = Some 1000 \<and>
           map_option openInterest (StrikeRecord.PE d) = Some 500"
    by (auto simp: sample_parse_values)
  have "Records.strikePrices (records r2) = [17900, 18000]"
    using p2 s2 unfolding oi2 by (simp add: sample_parse_values)
  with u2 d2 r2 have two: "\<exists>r. ?parse (Some ?two) = Some r \<and>
        Records.underlyingValue (records r) = 22000 \<and>
        Records.strikePrices (records r) = [17900, 18000] \<and>
        (\<exists>d\<in>set (Records.data' (records r)).
           StrikeRecord.strikePrice d = 17900 \<and>
           map_option openInterest (StrikeRecord.CE d) = Some 1000 \<and>
           map_option openInterest (StrikeRecord.PE d) = Some 500)"
    by (simp add: underlyingOf_sampleBodyOf)
  from fail failNull two r empty okr fetch show ?thesis
    by simp
qed


subsection \<open>The time intervals\<close>





text \<open>With a step of 0 or less the loop never returns once it is entered.\<close>

lemma intervalLoop_never_returns:
  assumes "step \<le> 0" "c \<le> e"
  shows "intervalLoop step e c acc = None"
proof (rule ccontr)
  assume "intervalLoop step e c acc \<noteq> None"
  then obtain y where y: "intervalLoop step e c acc = Some y"
    by auto
  have "step \<le> 0 \<longrightarrow> c \<le> e \<longrightarrow> False"
  proof (rule intervalLoop.raw_induct
      [where P = "\<lambda>step' e' c' acc' y'. step' \<le> 0 \<longrightarrow> c' \<le> e' \<longrightarrow> False", OF _ y])
    fix loop :: "int \<Rightarrow> int \<Rightarrow> int \<Rightarrow> string list \<Rightarrow> string list option"
    fix step' e' c' :: int and acc' y' :: "string list"
    assume IH: "\<And>s' e'' c'' a'' y''. loop s' e'' c'' a'' = Some y''
                 \<Longrightarrow> s' \<le> 0 \<longrightarrow> c'' \<le> e'' \<longrightarrow> False"
      and unfold: "(if c' \<le> e' then loop step' e' (c' + step') (acc' @ [timeLabel c'])
                    else Some acc') = Some y'"
    show "step' \<le> 0 \<longrightarrow> c' \<le> e' \<longrightarrow> False"
    proof (intro impI)
      assume neg: "step' \<le> 0" and le: "c' \<le> e'"
      with unfold have "loop step' e' (c' + step') (acc' @ [timeLabel c']) = Some y'"
        by simp
      from IH [OF this] neg le show False
        by simp
    qed
  qed
  with assms show False by simp
qed


lemma digitChar_props:
  assumes "k < 10"
  shows "isDigit (digitChar k)" "digitChar k \<noteq> CHR '':''" "int (of_char (digitChar k)) - 48 = int k"
proof -
  from assms have "k = 0 \<or> k = 1 \<or> k = 2 \<or> k = 3 \<or> k = 4 \<or> k = 5 \<or> k = 6 \<or> k = 7 \<or> k = 8
      \<or> k = 9"
    by arith
  then show "isDigit (digitChar k)" "digitChar k \<noteq> CHR '':''"
    "int (of_char (digitChar k)) - 48 = int k"
    by (elim disjE; simp add: digitChar_def isDigit_def)+
qed

lemma toStringNat_small: "n < 10 \<Longrightarrow> toStringNat n = [digitChar n]"
  by (subst toStringNat.simps) simp

lemma padStart2_toStringNat:
  assumes "n < 100"
  shows "padStart2 (toStringNat n) = [digitChar (n div 10), digitChar (n mod 10)]"
proof (cases "n < 10")
  case True
  then show ?thesis
    by (simp add: toStringNat_small padStart2_def digitChar_def del: toStringNat.simps)
next
  case False
  with assms have "n div 10 < 10" by simp
  then have "toStringNat (n div 10) = [digitChar (n div 10)]"
    by (rule toStringNat_small)
  with False have "toStringNat n = [digitChar (n div 10), digitChar (n mod 10)]"
    by (subst toStringNat.simps) (simp del: toStringNat.simps)
  then show ?thesis
    by (simp add: padStart2_def del: toStringNat.simps)
qed

lemma timeLabel_format:
  "timeLabel t =
     [digitChar (nat ((t div 60) mod 24) div 10), digitChar (nat ((t div 60) mod 24) mod 10),
      CHR '':'',
      digitChar (nat (t mod 60) div 10), digitChar (nat (t mod 60) mod 10)]"
proof -
  have "nat ((t div 60) mod 24) < 100" "nat (t mod 60) < 100"
    by simp_all
  then show ?thesis
    by (simp add: timeLabel_def Let_def padStart2_toStringNat del: toStringNat.simps)
qed

lemma NumberJS_two_digits:
  assumes "a < 10" "b < 10"
  shows "NumberJS [digitChar a, digitChar b] = Some (10 * int a + int b)"
  using digitChar_props [OF assms(1)] digitChar_props [OF assms(2)]
  by (simp add: NumberJS_def digitsValue_def)

lemma splitColon_label:
  assumes "a \<noteq> CHR '':''" "b \<noteq> CHR '':''" "c \<noteq> CHR '':''" "d \<noteq> CHR '':''"
  shows "splitColon [a, b, CHR '':'', c, d] = [[a, b], [c, d]]"
  using assms by simp

lemma dateOf_timeLabel:
  assumes "0 \<le> t" "t < 1440"
  shows "dateOf (timeLabel t) = Some t"
proof -
  define h where "h = nat (t div 60)"
  define m where "m = nat (t mod 60)"
  from assms have nonneg: "0 \<le> t div 60" "0 \<le> t mod 60"
    by (simp_all add: pos_imp_zdiv_nonneg_iff)
  from assms have "t div 60 < 24" "t mod 60 < 60"
    by simp_all
  with nonneg have hm: "h < 24" "m < 60" "t = 60 * int h + int m"
    by (simp_all add: h_def m_def)
  from assms have "(t div 60) mod 24 = t div 60"
    by simp
  then have label: "timeLabel t = [digitChar (h div 10), digitChar (h mod 10), CHR '':'',
      digitChar (m div 10), digitChar (m mod 10)]"
    by (simp only: timeLabel_format h_def m_def)
  from hm have d: "h div 10 < 10" "h mod 10 < 10" "m div 10 < 10" "m mod 10 < 10"
    by simp_all
  have split: "splitColon (timeLabel t) =
      [[digitChar (h div 10), digitChar (h mod 10)], [digitChar (m div 10), digitChar (m mod 10)]]"
    unfolding label
    by (intro splitColon_label digitChar_props(2) d)
  have "10 * int (h div 10) + int (h mod 10) = int h" "10 * int (m div 10) + int (m mod 10) = int m"
    by (simp_all add: zdiv_int zmod_int)
  then have "dateOf (timeLabel t) = Some (60 * int h + int m)"
    by (simp add: dateOf_def split NumberJS_two_digits d)
  with hm(3) show ?thesis
    by simp
qed



subsection \<open>The retention limits on a day of recordings\<close>

text \<open>
  The 101 recordings of \<open>sampleCalls\<close> carry the ISO times of the minutes from 09:15
  on, which \<open>sampleGetTime\<close> reads through \<open>dateOf\<close>; the store then holds the last
  100 of them, the most recent first.
\<close>

lemma sample_times:
  "sampleGetTime ''2024-03-28T09:15:00.000Z'' = Some 1711617300000"
  "sampleGetTime ''2024-03-28T09:30:00.000Z'' = Some 1711618200000"
  "sampleGetTime ''2024-03-28T09:45:00.000Z'' = Some 1711619100000"
  by (simp_all add: sampleGetTime_def dateOf_def NumberJS_def isDigit_def digitsValue_def)

lemma length_timeLabel: "length (timeLabel m) = 5"
  by (simp add: timeLabel_format)

lemma sampleGetTime_label:
  assumes "0 \<le> m" "m < 1440"
  shows "sampleGetTime (''2024-03-28T'' @ timeLabel m @ '':00.000Z'') = Some (1711584000000 + 60000 * m)"
  using assms by (simp add: sampleGetTime_def length_timeLabel dateOf_timeLabel)

lemma recorded_sampleCalls:
  "recorded sampleCalls =
     map (\<lambda>i. makeSnapshot (toStringNat i) (''2024-03-28T'' @ timeLabel (555 + int i) @ '':00.000Z'')
                (sampleResponse ''28-Mar-2024 15:30:00'')) [0..<101]"
  by (simp add: recorded_def sampleCalls_def comp_def del: toStringNat.simps upt_Suc)

lemma time_sampleCalls:
  assumes "i < 101"
  shows "sampleGetTime (Snapshot.timestamp (recorded sampleCalls ! i))
           = Some (1711584000000 + 60000 * (555 + int i))"
proof -
  from assms have "0 \<le> 555 + int i" "555 + int i < 1440"
    by simp_all
  from sampleGetTime_label [OF this] assms show ?thesis
    by (simp add: recorded_sampleCalls timestamp_makeSnapshot timestamp_sampleResponse includesT_def
        del: toStringNat.simps upt_Suc)
qed

lemma allDates_sampleCalls: "allDates sampleGetTime (recorded sampleCalls @ stored None)"
proof -
  have "sampleGetTime (Snapshot.timestamp s) \<noteq> None" if "s \<in> set (recorded sampleCalls)" for s
  proof -
    from that obtain i where "i < length (recorded sampleCalls)" "s = recorded sampleCalls ! i"
      by (metis in_set_conv_nth)
    then show ?thesis
      using time_sampleCalls [of i] by (simp add: recorded_sampleCalls del: upt_Suc)
  qed
  then show ?thesis
    by (simp add: allDates_def stored_simps)
qed

lemma sorted_sampleCalls:
  "sorted (map (\<lambda>s. - timeOf sampleGetTime s) (rev (recorded sampleCalls)))"
proof -
  have len: "length (recorded sampleCalls) = 101"
    by (simp add: recorded_sampleCalls del: upt_Suc)
  have "sorted_wrt (\<lambda>a b. - timeOf sampleGetTime b \<le> - timeOf sampleGetTime a) (recorded sampleCalls)"
    unfolding sorted_wrt_iff_nth_less
  proof (intro allI impI)
    fix i j assume "i < j" "j < length (recorded sampleCalls)"
    with len have "i < 101" "j < 101" by simp_all
    from time_sampleCalls [OF this(1)] time_sampleCalls [OF this(2)] \<open>i < j\<close>
    show "- timeOf sampleGetTime (recorded sampleCalls ! j)
            \<le> - timeOf sampleGetTime (recorded sampleCalls ! i)"
      by (simp add: timeOf_def)
  qed
  then show ?thesis
    by (simp add: rev_map [symmetric] sorted_wrt_rev sorted_wrt_map)
qed

lemma mostRecentOf_sampleCalls:
  "mostRecentOf sampleGetTime 100 (rev (recorded sampleCalls) @ stored None)
     = rev (tl (recorded sampleCalls))"
proof -
  have len: "length (recorded sampleCalls) = 101"
    by (simp add: recorded_sampleCalls del: upt_Suc)
  have "sort_key (\<lambda>s. - timeOf sampleGetTime s) (rev (recorded sampleCalls))
          = rev (recorded sampleCalls)"
    using sorted_sampleCalls by (rule sort_key_id_if_sorted)
  then show ?thesis
    by (simp add: mostRecentOf_def stored_simps take_rev len drop_Suc)
qed

lemma time_samples:
  "timeOf sampleGetTime (makeSnapshot a ''2024-03-28T09:15:00.000Z'' (sampleResponse ''28-Mar-2024 09:15:00'')) = 1711617300000"
  "timeOf sampleGetTime (makeSnapshot a ''2024-03-28T09:45:00.000Z'' (sampleResponse ''28-Mar-2024 09:45:00'')) = 1711619100000"
  "timeOf sampleGetTime (makeSnapshot a ''2024-03-28T09:30:00.000Z'' (sampleResponse ''28-Mar-2024 09:30:00'')) = 1711618200000"
  "timeOf sampleGetTime (sampleSummary ''2024-03-28T09:15:00.000Z'') = 1711617300000"
  "timeOf sampleGetTime (sampleSummary ''2024-03-28T09:30:00.000Z'') = 1711618200000"
  by (simp_all add: timeOf_def sampleSummary_def timestamp_makeSnapshot timestamp_sampleResponse
      includesT_def sample_times)

lemma sample_summary_fields:
  "Snapshot.timestamp (sampleSummary ts) = ts"
  "id' (sampleSummary ts) = ''backfill''"
  "id' sampleLive = ''1''"
  "Snapshot.timestamp sampleLive = ''2024-03-28T09:15:00.000Z''"
  by (simp_all add: sampleSummary_def sampleLive_def timestamp_makeSnapshot timestamp_sampleResponse
      includesT_def) (simp_all add: makeSnapshot_def Let_def)

theorem retention_keeps_most_recent_witness:
  "100 < length sampleCalls \<and>
   allDates sampleGetTime (recorded sampleCalls @ stored None) \<and>
   length (getSnapshots (saveSnapshots sampleGetTime sampleCalls None)) = 100 \<and>
   getSnapshots (saveSnapshots sampleGetTime sampleCalls None) = rev (tl (recorded sampleCalls)) \<and>
   allDates sampleGetTime (recorded sampleThreeCalls @ stored None) \<and>
   map Snapshot.timestamp (getSnapshots (saveSnapshots sampleGetTime sampleThreeCalls None))
     = [''2024-03-28T09:45:00.000Z'', ''2024-03-28T09:30:00.000Z'', ''2024-03-28T09:15:00.000Z''] \<and>
   allDates sampleGetTime (sampleBackfill @ stored (Some [sampleLive])) \<and>
   length (getSnapshots (saveBackfilledSnapshots sampleGetTime sampleBackfill (Some [sampleLive]))) = 2 \<and>
   mostRecentFirst sampleGetTime
     (getSnapshots (saveBackfilledSnapshots sampleGetTime sampleBackfill (Some [sampleLive]))) \<and>
   map (\<lambda>s. (id' s, Snapshot.timestamp s))
     (getSnapshots (saveBackfilledSnapshots sampleGetTime sampleBackfill (Some [sampleLive])))
     = [(''backfill'', ''2024-03-28T09:30:00.000Z''), (''backfill'', ''2024-03-28T09:15:00.000Z'')]"
proof -
  have n: "100 < length sampleCalls"
    by (simp add: sampleCalls_def)
  then have ne: "sampleCalls \<noteq> []"
    by auto
  note single = retention_keeps_most_recent [of sampleCalls sampleGetTime None "[]"]
  from single n have len: "length (getSnapshots (saveSnapshots sampleGetTime sampleCalls None)) = 100"
    by blast
  from single ne allDates_sampleCalls
  have "getSnapshots (saveSnapshots sampleGetTime sampleCalls None)
          = mostRecentOf sampleGetTime 100 (rev (recorded sampleCalls) @ stored None)"
    by blast
  then have kept: "getSnapshots (saveSnapshots sampleGetTime sampleCalls None)
          = rev (tl (recorded sampleCalls))"
    by (simp only: mostRecentOf_sampleCalls)
  have ne3: "sampleThreeCalls \<noteq> []"
    by (simp add: sampleThreeCalls_def)
  have dates3: "allDates sampleGetTime (recorded sampleThreeCalls @ stored None)"
    by (simp add: allDates_def recorded_def sampleThreeCalls_def stored_simps timestamp_makeSnapshot
        timestamp_sampleResponse includesT_def sample_times)
  from retention_keeps_most_recent [of sampleThreeCalls sampleGetTime None "[]"] ne3 dates3
  have "getSnapshots (saveSnapshots sampleGetTime sampleThreeCalls None)
          = mostRecentOf sampleGetTime 100 (rev (recorded sampleThreeCalls) @ stored None)"
    by blast
  then have three: "map Snapshot.timestamp (getSnapshots (saveSnapshots sampleGetTime sampleThreeCalls None))
     = [''2024-03-28T09:45:00.000Z'', ''2024-03-28T09:30:00.000Z'', ''2024-03-28T09:15:00.000Z'']"
    by (simp add: mostRecentOf_def recorded_def sampleThreeCalls_def stored_simps time_samples
        timestamp_makeSnapshot timestamp_sampleResponse includesT_def)
  have datesB: "allDates sampleGetTime (sampleBackfill @ stored (Some [sampleLive]))"
    by (simp add: allDates_def sampleBackfill_def stored_simps sample_summary_fields sample_times)
  note batch = retention_keeps_most_recent [of "[]" sampleGetTime "Some [sampleLive]" sampleBackfill]
  have "Snapshot.timestamp ` set (sampleBackfill @ stored (Some [sampleLive]))
          = {''2024-03-28T09:15:00.000Z'', ''2024-03-28T09:30:00.000Z''}"
    by (auto simp: sampleBackfill_def stored_simps sample_summary_fields)
  then have "card (Snapshot.timestamp ` set (sampleBackfill @ stored (Some [sampleLive]))) = 2"
    by simp
  with batch
  have lenB: "length (getSnapshots (saveBackfilledSnapshots sampleGetTime sampleBackfill (Some [sampleLive]))) = 2"
    by simp
  from batch datesB
  have srtB: "mostRecentFirst sampleGetTime
     (getSnapshots (saveBackfilledSnapshots sampleGetTime sampleBackfill (Some [sampleLive])))"
    by blast
  have evalB: "map (\<lambda>s. (id' s, Snapshot.timestamp s))
     (getSnapshots (saveBackfilledSnapshots sampleGetTime sampleBackfill (Some [sampleLive])))
     = [(''backfill'', ''2024-03-28T09:30:00.000Z''), (''backfill'', ''2024-03-28T09:15:00.000Z'')]"
    unfolding getSnapshots_def stored_saveBackfilled
    by (simp add: sortBy_def byTimeDesc_def uniqueByTimestamp_def sampleBackfill_def stored_simps
        sample_summary_fields sample_times upt_rec [of 0] upt_rec [of 1] upt_rec [of 2])
  from n allDates_sampleCalls len kept dates3 three datesB lenB srtB evalB show ?thesis
    by (intro conjI)
qed


end
